theory Spec2Isabelle
  imports Main "HOL-Library.Char_ord" "HOL-Library.List_Lexorder" "HOL-Library.Sublist"
    "HOL-Library.Multiset" "HOL-Library.AList"
begin

section \<open>Strings and JavaScript values\<close>

text \<open>
  JavaScript strings are modelled as \<^typ>\<open>string\<close>, a list of 8-bit code units read as
  Latin-1. JavaScript values that reach the sandbox crawler come from parsed
  \<^verbatim>\<open>package.json\<close> files; objects are association lists in insertion (iteration) order,
  and \<open>JMap\<close> is an ES6 \<^verbatim>\<open>Map\<close> object (the type of \<^verbatim>\<open>BuildEnvironment\<close>), which has
  no own enumerable properties.
\<close>

datatype jsvalue =
    JNull
  | JUndefined
  | JBool bool
  | JNumber int
  | JString string
  | JArray "jsvalue list"
  | JObject "(string \<times> jsvalue) list"
  | JMap "(string \<times> jsvalue) list"

fun natToString :: "nat \<Rightarrow> string" where
  "natToString n =
     (if n < 10 then [char_of (48 + n)]
      else natToString (n div 10) @ [char_of (48 + n mod 10)])"

declare natToString.simps [simp del]

definition intToString :: "int \<Rightarrow> string" where
  "intToString i = (if i < 0 then CHR ''-'' # natToString (nat (- i)) else natToString (nat i))"

definition hexDigit :: "nat \<Rightarrow> char" where
  "hexDigit n = (if n < 10 then char_of (48 + n) else char_of (87 + n))"

definition quoteChar :: "char \<Rightarrow> string" where
  "quoteChar c =
     (if c = CHR 0x22 then [CHR 0x5C, CHR 0x22]
      else if c = CHR 0x5C then [CHR 0x5C, CHR 0x5C]
      else if c = CHR 0x08 then [CHR 0x5C, CHR ''b'']
      else if c = CHR 0x0C then [CHR 0x5C, CHR ''f'']
      else if c = CHR 0x0A then [CHR 0x5C, CHR ''n'']
      else if c = CHR 0x0D then [CHR 0x5C, CHR ''r'']
      else if c = CHR 0x09 then [CHR 0x5C, CHR ''t'']
      else if (of_char c :: nat) < 32
        then [CHR 0x5C, CHR ''u'', CHR ''0'', CHR ''0'',
              hexDigit ((of_char c :: nat) div 16), hexDigit ((of_char c :: nat) mod 16)]
      else [c])"

definition stringifyString :: "string \<Rightarrow> string" where
  "stringifyString s = [CHR 0x22] @ concat (map quoteChar s) @ [CHR 0x22]"

fun joinWith :: "string \<Rightarrow> string list \<Rightarrow> string" where
  "joinWith sep [] = []"
| "joinWith sep [x] = x"
| "joinWith sep (x # y # ys) = x @ sep @ joinWith sep (y # ys)"

definition stringifyStrings :: "string list \<Rightarrow> string" where
  "stringifyStrings xs = ''['' @ joinWith '','' (map stringifyString xs) @ '']''"

definition getProp :: "(string \<times> jsvalue) list \<Rightarrow> string \<Rightarrow> jsvalue" where
  "getProp kvs k = (case map_of kvs k of Some v \<Rightarrow> v | None \<Rightarrow> JUndefined)"

fun hashMeasure :: "jsvalue \<Rightarrow> nat" where
  "hashMeasure JNull = 1"
| "hashMeasure JUndefined = 1"
| "hashMeasure (JMap entries) = 3"
| "hashMeasure (JArray xs) = 2 + fold max (map hashMeasure xs) 0"
| "hashMeasure (JObject kvs) = 6 + fold max (map (\<lambda>(k, v). hashMeasure v) kvs) 0"
| "hashMeasure _ = 0"

lemma fold_max_init_le: "(b :: nat) \<le> fold max ms b"
  by (induction ms arbitrary: b) (auto intro: order_trans [OF max.cobounded2])

lemma fold_max_ge: "(n :: nat) \<in> set ns \<Longrightarrow> n \<le> fold max ns a"
proof (induction ns arbitrary: a)
  case Nil
  then show ?case by simp
next
  case (Cons m ms)
  then show ?case
    using fold_max_init_le [of "max m a" ms] by (auto intro: order_trans [OF max.cobounded1])
qed

lemma fold_max_le: "(a :: nat) \<le> b \<Longrightarrow> (\<And>n. n \<in> set ns \<Longrightarrow> n \<le> b) \<Longrightarrow> fold max ns a \<le> b"
  by (induction ns arbitrary: a) auto

lemma hashMeasure_getProp:
  "hashMeasure (getProp kvs k) \<le> 1 + fold max (map (\<lambda>(k, v). hashMeasure v) kvs) 0"
proof (cases "map_of kvs k")
  case None
  then show ?thesis by (simp add: getProp_def)
next
  case (Some v)
  then have "(k, v) \<in> set kvs" by (rule map_of_SomeD)
  then have "hashMeasure v \<in> set (map (\<lambda>(k, v). hashMeasure v) kvs)" by force
  then have "hashMeasure v \<le> fold max (map (\<lambda>(k, v). hashMeasure v) kvs) 0"
    by (rule fold_max_ge)
  then show ?thesis using Some by (simp add: getProp_def)
qed

lemma hashMeasure_pairs:
  "hashMeasure (JArray (map (\<lambda>k. JArray [JString k, getProp kvs k]) keys)) < hashMeasure (JObject kvs)"
proof -
  have "fold max (map hashMeasure (map (\<lambda>k. JArray [JString k, getProp kvs k]) keys)) 0
        \<le> 3 + fold max (map (\<lambda>(k, v). hashMeasure v) kvs) 0"
  proof (rule fold_max_le)
    fix n
    assume "n \<in> set (map hashMeasure (map (\<lambda>k. JArray [JString k, getProp kvs k]) keys))"
    then obtain k where "n = 2 + max (hashMeasure (getProp kvs k)) 0" by auto
    then show "n \<le> 3 + fold max (map (\<lambda>(k, v). hashMeasure v) kvs) 0"
      using hashMeasure_getProp [of kvs k] by simp
  qed simp
  then show ?thesis by simp
qed

lemma hashMeasure_element: "x \<in> set xs \<Longrightarrow> hashMeasure x < hashMeasure (JArray xs)"
proof -
  assume "x \<in> set xs"
  then have "hashMeasure x \<le> fold max (map hashMeasure xs) 0" by (intro fold_max_ge) simp
  then show ?thesis by simp
qed

function hash :: "(string \<Rightarrow> string) \<Rightarrow> jsvalue \<Rightarrow> string" where
  "hash sha1 JNull = hash sha1 (JString ''null'')"
| "hash sha1 (JObject kvs) =
     (let keys = sort (map fst kvs)
      in hash sha1 (JArray (map (\<lambda>k. JArray [JString k, getProp kvs k]) keys)))"
| "hash sha1 (JMap entries) = hash sha1 (JArray [])"
| "hash sha1 (JArray xs) = hash sha1 (JString (stringifyStrings (map (hash sha1) xs)))"
| "hash sha1 JUndefined = hash sha1 (JString ''undefined'')"
| "hash sha1 (JString s) = sha1 (stringifyString s)"
| "hash sha1 (JNumber n) = sha1 (intToString n)"
| "hash sha1 (JBool b) = sha1 (if b then ''true'' else ''false'')"
  by pat_completeness auto
termination
  by (relation "measure (\<lambda>(sha1, v). hashMeasure v)")
     (simp_all add: hashMeasure_pairs hashMeasure_element del: hashMeasure.simps(4,5), simp_all)

section \<open>Package name normalisation (\<^verbatim>\<open>util.js\<close>)\<close>

definition toLowerCaseChar :: "char \<Rightarrow> char" where
  "toLowerCaseChar c =
     (let n = (of_char c :: nat)
      in if (65 \<le> n \<and> n \<le> 90) \<or> (192 \<le> n \<and> n \<le> 222 \<and> n \<noteq> 215)
         then char_of (n + 32) else c)"

definition toLowerCase :: "string \<Rightarrow> string" where
  "toLowerCase s = map toLowerCaseChar s"

definition replaceChar :: "char \<Rightarrow> string \<Rightarrow> string \<Rightarrow> string" where
  "replaceChar c r s = concat (map (\<lambda>x. if x = c then r else [x]) s)"

function appendToUnderscoreRuns :: "string \<Rightarrow> string" where
  "appendToUnderscoreRuns [] = []"
| "appendToUnderscoreRuns (c # cs) =
     (if c = CHR ''_''
      then (let matched = takeWhile (\<lambda>x. x = CHR ''_'') (c # cs)
            in matched @ ''__'' @ appendToUnderscoreRuns (dropWhile (\<lambda>x. x = CHR ''_'') cs))
      else c # appendToUnderscoreRuns cs)"
  by pat_completeness auto
termination
  by (relation "measure length") (auto simp: length_dropWhile_le less_Suc_eq_le)

definition normalizePackageName :: "string \<Rightarrow> string" where
  "normalizePackageName name =
     replaceChar (CHR ''-'') ''_''
       (replaceChar (CHR ''.'') ''__dot__''
         (replaceChar (CHR ''/'') ''__slash__''
           (appendToUnderscoreRuns
             (replaceChar (CHR ''@'') '''' (toLowerCase name)))))"


text \<open>
  The same normalisation as one left-to-right pass over the lower-cased name without
  \<^verbatim>\<open>@\<close>: a maximal run of \<open>n\<close> underscores becomes \<open>n + 2\<close> underscores.
\<close>

function normalizeRuns :: "string \<Rightarrow> string" where
  "normalizeRuns [] = []"
| "normalizeRuns (c # cs) =
     (if c = CHR ''_''
      then replicate (length (takeWhile (\<lambda>x. x = CHR ''_'') (c # cs)) + 2) (CHR ''_'')
           @ normalizeRuns (dropWhile (\<lambda>x. x = CHR ''_'') cs)
      else if c = CHR ''/'' then ''__slash__'' @ normalizeRuns cs
      else if c = CHR ''.'' then ''__dot__'' @ normalizeRuns cs
      else if c = CHR ''-'' then ''_'' @ normalizeRuns cs
      else c # normalizeRuns cs)"
  by pat_completeness auto
termination
  by (relation "measure length") (auto simp: length_dropWhile_le less_Suc_eq_le)

section \<open>Build specifications and build identifiers (\<^verbatim>\<open>build-sandbox.js\<close>)\<close>

text \<open>
  A \<^verbatim>\<open>BuildSpec\<close> as \<^verbatim>\<open>crawlBuild\<close> returns it. Its \<^verbatim>\<open>dependencies\<close> are a
  \<^verbatim>\<open>Map\<close> from build id to \<^verbatim>\<open>BuildSpec\<close>, kept here as an association list in
  insertion order.
\<close>

datatype buildSpec = BuildSpec
  (spec_id: string)
  (spec_name: string)
  (spec_version: "string option")
  (spec_exportedEnv: jsvalue)
  (spec_command: "jsvalue list option")
  (spec_shouldBePersisted: bool)
  (spec_mutatesSourcePath: bool)
  (spec_sourcePath: string)
  (spec_dependencies: "(string \<times> buildSpec) list")
  (spec_errors: "string list")

text \<open>
  The fields of a parsed \<^verbatim>\<open>package.json\<close> the crawler reads. A field the manifest
  does not have is \<open>None\<close> (\<^verbatim>\<open>undefined\<close> in the source).
\<close>

record packageJson =
  pkg_name :: string
  pkg_version :: "string option"
  pkg_dependencies :: "(string \<times> string) list option"
  pkg_peerDependencies :: "(string \<times> string) list option"
  pkg_resolved :: "string option"
  pkg_esy :: jsvalue

definition versionOrDefault :: "string option \<Rightarrow> string" where
  \<comment> \<open>\<^verbatim>\<open>version || '0.0.0'\<close>: an absent or empty version is falsy.\<close>
  "versionOrDefault v = (case v of None \<Rightarrow> ''0.0.0'' | Some s \<Rightarrow> if s = [] then ''0.0.0'' else s)"

definition optString :: "string option \<Rightarrow> jsvalue" where
  "optString v = (case v of None \<Rightarrow> JUndefined | Some s \<Rightarrow> JString s)"

definition buildIdInput ::
  "jsvalue \<Rightarrow> packageJson \<Rightarrow> string \<Rightarrow> (string \<times> buildSpec) list \<Rightarrow> jsvalue" where
  \<comment> \<open>The object literal that \<^verbatim>\<open>calculateBuildId\<close> hands to \<^verbatim>\<open>hash\<close>.\<close>
  "buildIdInput env pj source dependencies =
     JObject
       [(''env'', env),
        (''source'', JString source),
        (''packageJson'',
           JObject
             [(''name'', JString (pkg_name pj)),
              (''version'', optString (pkg_version pj)),
              (''esy'', pkg_esy pj)]),
        (''dependencies'', JArray (map (\<lambda>(k, dep). JString (spec_id dep)) dependencies))]"

definition calculateBuildId ::
  "(string \<Rightarrow> string) \<Rightarrow> bool \<Rightarrow> jsvalue \<Rightarrow> packageJson \<Rightarrow> string
     \<Rightarrow> (string \<times> buildSpec) list \<Rightarrow> string" where
  \<comment> \<open>\<open>sha1\<close> is the hex digest of Node's \<^verbatim>\<open>crypto.createHash('sha1')\<close>; \<open>esyTest\<close> is
      whether \<^verbatim>\<open>process.env.ESY__TEST\<close> is set.\<close>
  "calculateBuildId sha1 esyTest env pj source dependencies =
     (let h = hash sha1 (buildIdInput env pj source dependencies)
      in if esyTest
         then normalizePackageName (pkg_name pj) @ ''-'' @ versionOrDefault (pkg_version pj)
         else normalizePackageName (pkg_name pj) @ ''-'' @ versionOrDefault (pkg_version pj)
              @ ''-'' @ h)"

definition validPathComponent :: "string \<Rightarrow> bool" where
  \<comment> \<open>A POSIX file name: not empty, no slash, no NUL, and neither dot nor dot-dot.\<close>
  "validPathComponent s =
     (s \<noteq> [] \<and> CHR ''/'' \<notin> set s \<and> CHR 0x00 \<notin> set s \<and> s \<noteq> ''.'' \<and> s \<noteq> ''..'')"

definition normalizeAsClaimed :: "string \<Rightarrow> string" where
  \<comment> \<open>The specification's wording, character by character: every underscore becomes two
      underscores.\<close>
  "normalizeAsClaimed name =
     concat (map (\<lambda>c. if c = CHR ''@'' then []
                       else if c = CHR ''_'' then ''__''
                       else if c = CHR ''/'' then ''__slash__''
                       else if c = CHR ''.'' then ''__dot__''
                       else if c = CHR ''-'' then ''_''
                       else [c]) (toLowerCase name))"

text \<open>
  Two values are the same up to key order when one is obtained from the other by
  permuting the entries of objects (and of \<^verbatim>\<open>Map\<close>s), at any depth. JavaScript objects
  have no duplicate keys: \<open>distinctKeys\<close>.
\<close>

inductive sameUpToKeyOrder :: "jsvalue \<Rightarrow> jsvalue \<Rightarrow> bool" where
  same: "sameUpToKeyOrder v v"
| array: "list_all2 sameUpToKeyOrder xs ys \<Longrightarrow> sameUpToKeyOrder (JArray xs) (JArray ys)"
| object:
    "list_all2 (\<lambda>kv kv'. fst kv = fst kv' \<and> sameUpToKeyOrder (snd kv) (snd kv')) kvs kvs'
     \<Longrightarrow> mset kvs' = mset kvs''
     \<Longrightarrow> sameUpToKeyOrder (JObject kvs) (JObject kvs'')"
| map:
    "list_all2 (\<lambda>kv kv'. fst kv = fst kv' \<and> sameUpToKeyOrder (snd kv) (snd kv')) kvs kvs'
     \<Longrightarrow> mset kvs' = mset kvs''
     \<Longrightarrow> sameUpToKeyOrder (JMap kvs) (JMap kvs'')"

fun distinctKeys :: "jsvalue \<Rightarrow> bool" where
  "distinctKeys (JObject kvs) = (distinct (map fst kvs) \<and> list_all (\<lambda>kv. distinctKeys (snd kv)) kvs)"
| "distinctKeys (JArray xs) = list_all distinctKeys xs"
| "distinctKeys v = True"

section \<open>Paths and the build configuration (\<^verbatim>\<open>build-config.js\<close>)\<close>

text \<open>
  \<^verbatim>\<open>path.join\<close> of Node (POSIX flavour), which the configuration calls on every path:
  the non-empty arguments are joined with a slash and the result is normalised, that is,
  split at slashes, with empty and \<^verbatim>\<open>.\<close> segments dropped and each \<^verbatim>\<open>..\<close> removing
  the segment before it (or kept, in a relative path, when there is none to remove).
\<close>

fun splitOn :: "char \<Rightarrow> string \<Rightarrow> string list" where
  "splitOn c [] = [[]]"
| "splitOn c (x # xs) =
     (if x = c then [] # splitOn c xs
      else (case splitOn c xs of [] \<Rightarrow> [[x]] | s # ss \<Rightarrow> (x # s) # ss))"

fun normalizeSegments :: "bool \<Rightarrow> string list \<Rightarrow> string list \<Rightarrow> string list" where
  "normalizeSegments allowAboveRoot [] res = res"
| "normalizeSegments allowAboveRoot (seg # segs) res =
     (if seg = [] \<or> seg = ''.'' then normalizeSegments allowAboveRoot segs res
      else if seg = ''..''
      then (if res \<noteq> [] \<and> last res \<noteq> ''..''
            then normalizeSegments allowAboveRoot segs (butlast res)
            else if allowAboveRoot then normalizeSegments allowAboveRoot segs (res @ [''..''])
            else normalizeSegments allowAboveRoot segs res)
      else normalizeSegments allowAboveRoot segs (res @ [seg]))"

definition pathNormalize :: "string \<Rightarrow> string" where
  "pathNormalize path =
     (if path = [] then ''.''
      else
        (let isAbsolute = (hd path = CHR ''/'');
             trailingSeparator = (last path = CHR ''/'');
             res = joinWith ''/'' (normalizeSegments (\<not> isAbsolute) (splitOn (CHR ''/'') path) []);
             res1 = (if res = [] \<and> \<not> isAbsolute then ''.'' else res);
             res2 = (if res1 \<noteq> [] \<and> trailingSeparator then res1 @ ''/'' else res1)
         in if isAbsolute then CHR ''/'' # res2 else res2))"

definition pathJoin :: "string list \<Rightarrow> string" where
  "pathJoin args =
     (let given = filter (\<lambda>arg. arg \<noteq> []) args
      in if given = [] then ''.'' else pathNormalize (joinWith ''/'' given))"

record buildConfig =
  storePath :: string
  sandboxPath :: string

definition sandboxLocalStorePath :: "buildConfig \<Rightarrow> string" where
  "sandboxLocalStorePath cfg =
     pathJoin [sandboxPath cfg, ''node_modules'', ''.cache'', ''_esy'', ''store'']"

definition genPath :: "buildConfig \<Rightarrow> buildSpec \<Rightarrow> string \<Rightarrow> string list \<Rightarrow> string" where
  "genPath cfg build tree segments =
     (if spec_shouldBePersisted build
      then pathJoin (storePath cfg # tree # spec_id build # segments)
      else pathJoin (sandboxLocalStorePath cfg # tree # spec_id build # segments))"

definition getSourcePath :: "buildConfig \<Rightarrow> buildSpec \<Rightarrow> string list \<Rightarrow> string" where
  "getSourcePath cfg build segments = pathJoin (sandboxPath cfg # spec_sourcePath build # segments)"

definition getRootPath :: "buildConfig \<Rightarrow> buildSpec \<Rightarrow> string list \<Rightarrow> string" where
  "getRootPath cfg build segments =
     (if spec_mutatesSourcePath build then genPath cfg build ''_build'' segments
      else pathJoin (sandboxPath cfg # spec_sourcePath build # segments))"

definition getBuildPath :: "buildConfig \<Rightarrow> buildSpec \<Rightarrow> string list \<Rightarrow> string" where
  "getBuildPath cfg build segments = genPath cfg build ''_build'' segments"

definition getInstallPath :: "buildConfig \<Rightarrow> buildSpec \<Rightarrow> string list \<Rightarrow> string" where
  "getInstallPath cfg build segments = genPath cfg build ''_insttmp'' segments"

definition getFinalInstallPath :: "buildConfig \<Rightarrow> buildSpec \<Rightarrow> string list \<Rightarrow> string" where
  "getFinalInstallPath cfg build segments = genPath cfg build ''_install'' segments"

section \<open>Graph primitives (\<^verbatim>\<open>graph.js\<close>)\<close>

text \<open>
  A node has an \<^verbatim>\<open>id\<close> and an ordered list of \<^verbatim>\<open>dependencies\<close>. A datatype value is a
  finite tree, so every graph of this type is acyclic; a node reached along two paths
  appears as two equal subterms, as the shared object does in the source.
\<close>

datatype node = Node (node_id: string) (node_dependencies: "node list")

text \<open>
  The inner function \<^verbatim>\<open>traverse\<close> of \<^verbatim>\<open>traverseDeepFirst\<close>: the state is the set
  \<^verbatim>\<open>seen\<close> and whatever the callback \<open>f\<close> accumulates.
\<close>

fun traverseFrom :: "(node \<Rightarrow> 's \<Rightarrow> 's) \<Rightarrow> node \<Rightarrow> string set \<times> 's \<Rightarrow> string set \<times> 's" where
  "traverseFrom f (Node i deps) (seen, acc) =
     (if i \<in> seen then (seen, acc)
      else (case fold (\<lambda>dep st. traverseFrom f dep st) deps (insert i seen, acc) of
              (seen', acc') \<Rightarrow> (seen', f (Node i deps) acc')))"

definition traverseDeepFirst :: "node \<Rightarrow> (node \<Rightarrow> 's \<Rightarrow> 's) \<Rightarrow> 's \<Rightarrow> 's" where
  "traverseDeepFirst node f acc = snd (traverseFrom f node ({}, acc))"

definition collectTransitiveDependencies :: "node \<Rightarrow> node list" where
  "collectTransitiveDependencies node =
     rev (traverseDeepFirst node
            (\<lambda>cur dependencies. if cur \<noteq> node then dependencies @ [cur] else dependencies) [])"

text \<open>The transitive dependencies of a node (the node itself excluded), and all its nodes.\<close>

fun transitiveDeps :: "node \<Rightarrow> node set" where
  "transitiveDeps (Node i deps) = (\<Union>dep \<in> set deps. insert dep (transitiveDeps dep))"

definition nodesOf :: "node \<Rightarrow> node set" where
  "nodesOf n = insert n (transitiveDeps n)"

text \<open>
  The order the specification claims: every element comes after all of its own transitive
  dependencies (so before all of its dependents: leaves first). And the order the code
  produces: every element comes before all of its own transitive dependencies.
\<close>

definition leavesFirst :: "node list \<Rightarrow> bool" where
  "leavesFirst xs = (\<forall>pre x post. xs = pre @ x # post \<longrightarrow> transitiveDeps x \<subseteq> set pre)"

definition dependentsFirst :: "node list \<Rightarrow> bool" where
  "dependentsFirst xs = (\<forall>pre x post. xs = pre @ x # post \<longrightarrow> transitiveDeps x \<subseteq> set post)"

section \<open>Ejected environment: exclusivity diagnostics (\<^verbatim>\<open>addEnvConfigForPackage\<close>)\<close>

text \<open>
  An entry of \<^verbatim>\<open>exportedEnv\<close>. \<open>ev_builtIn\<close> is the flag
  \<^verbatim>\<open>__BUILT_IN_DO_NOT_USE_OR_YOU_WILL_BE_PIPd\<close>; an absent \<^verbatim>\<open>exclusive\<close> is falsy.
\<close>

record envVarExport =
  ev_val :: "string option"
  ev_scope :: "string option"
  ev_exclusive :: bool
  ev_builtIn :: bool

record seenVar =
  sv_packageJsonPath :: string
  sv_config :: envVarExport

record environmentVar =
  var_name :: string
  var_value :: "string option"
  var_automaticDefault :: bool

record environmentConfigState =
  ecs_seenVars :: "string \<rightharpoonup> seenVar"
  ecs_errors :: "string list"
  ecs_normalizedEnvVars :: "environmentVar list"

text \<open>
  The host functions \<^verbatim>\<open>relativeToSandbox\<close> calls: \<^verbatim>\<open>fs.realpathSync\<close> (which throws
  on a path that does not exist), \<^verbatim>\<open>path-is-inside\<close> and \<^verbatim>\<open>path.relative\<close>.
\<close>

record pathOps =
  realpathSync :: "string \<Rightarrow> string option"
  pathIsInside :: "string \<Rightarrow> string \<Rightarrow> bool"
  pathRelative :: "string \<Rightarrow> string \<Rightarrow> string"

datatype fsError = ENOENT string

definition relativeToSandbox :: "pathOps \<Rightarrow> string \<Rightarrow> string \<Rightarrow> fsError + string" where
  "relativeToSandbox ops realFromPath toPath =
     (case realpathSync ops toPath of
        None \<Rightarrow> Inl (ENOENT toPath)
      | Some realToPath \<Rightarrow>
          (let toPathToUse = (if pathIsInside ops realFromPath realToPath then realToPath else toPath);
               ret = pathRelative ops realFromPath toPathToUse
           in Inr (if ret = ''0'' then ''$esy__sandbox'' else ''$esy__sandbox/'' @ ret)))"

definition overrideExclusiveMessage :: "bool \<Rightarrow> string \<Rightarrow> string \<Rightarrow> string \<Rightarrow> string" where
  "overrideExclusiveMessage incumbentBuiltIn envVar setBy packageName =
     (if incumbentBuiltIn then ''Built-in variable '' else [])
     @ envVar @ '' has already been set by '' @ setBy @ '' ''
     @ ''which configured it with exclusive:true. That means it wants to be the only one to set it. Yet ''
     @ packageName @ '' is trying to override it.''"

definition declareExclusiveMessage :: "string \<Rightarrow> string \<Rightarrow> string \<Rightarrow> string" where
  "declareExclusiveMessage envVar setBy packageName =
     envVar @ '' has already been set by '' @ setBy @ '' ''
     @ ''and '' @ packageName @ '' has configured it with exclusive:true. ''
     @ ''Sometimes you can reduce the likehood of conflicts by marking some packages as buildTimeOnlyDependencies.''"

definition exclusivityErrors ::
  "pathOps \<Rightarrow> (string \<rightharpoonup> seenVar) \<Rightarrow> string \<Rightarrow> string \<Rightarrow> string \<Rightarrow> envVarExport
     \<Rightarrow> fsError + string list" where
  \<comment> \<open>The two \<^verbatim>\<open>if\<close> statements of the loop body, in order; \<^verbatim>\<open>relativeToSandbox\<close> is
      evaluated (and may throw) only inside a taken branch.\<close>
  "exclusivityErrors ops seen realPathSandboxRootOnEjectingHost packageName envVar config =
     (case (case seen envVar of
              Some incumbent \<Rightarrow>
                if ev_exclusive (sv_config incumbent)
                then (case relativeToSandbox ops realPathSandboxRootOnEjectingHost
                             (sv_packageJsonPath incumbent) of
                        Inl e \<Rightarrow> Inl e
                      | Inr setBy \<Rightarrow>
                          Inr [overrideExclusiveMessage (ev_builtIn (sv_config incumbent))
                                 envVar setBy packageName])
                else Inr []
            | None \<Rightarrow> Inr []) of
        Inl e \<Rightarrow> Inl e
      | Inr first \<Rightarrow>
          (case seen envVar of
             Some incumbent \<Rightarrow>
               if ev_exclusive config
               then (case relativeToSandbox ops realPathSandboxRootOnEjectingHost
                            (sv_packageJsonPath incumbent) of
                       Inl e \<Rightarrow> Inl e
                     | Inr setBy \<Rightarrow> Inr (first @ [declareExclusiveMessage envVar setBy packageName]))
               else Inr first
           | None \<Rightarrow> Inr first))"

fun addEnvConfigLoop ::
  "pathOps \<Rightarrow> (string \<rightharpoonup> seenVar) \<Rightarrow> string \<Rightarrow> string \<Rightarrow> string
     \<Rightarrow> (string \<times> envVarExport) list
     \<Rightarrow> (string \<rightharpoonup> seenVar) \<times> string list \<times> environmentVar list
     \<Rightarrow> fsError + (string \<rightharpoonup> seenVar) \<times> string list \<times> environmentVar list" where
  "addEnvConfigLoop ops seen root packageName packageJsonFilePath [] acc = Inr acc"
| "addEnvConfigLoop ops seen root packageName packageJsonFilePath ((envVar, config) # rest)
     (nextSeenVars, nextErrors, nextNormalizedEnvVars) =
     (case exclusivityErrors ops seen root packageName envVar config of
        Inl e \<Rightarrow> Inl e
      | Inr msgs \<Rightarrow>
          addEnvConfigLoop ops seen root packageName packageJsonFilePath rest
            (nextSeenVars(envVar \<mapsto>
               \<lparr>sv_packageJsonPath =
                  (if packageJsonFilePath = [] then ''unknownPackage'' else packageJsonFilePath),
                sv_config = config\<rparr>),
             nextErrors @ msgs,
             nextNormalizedEnvVars @
               [\<lparr>var_name = envVar, var_value = ev_val config,
                 var_automaticDefault = ev_builtIn config\<rparr>]))"

definition addEnvConfigForPackage ::
  "pathOps \<Rightarrow> environmentConfigState \<Rightarrow> string \<Rightarrow> string \<Rightarrow> string
     \<Rightarrow> (string \<times> envVarExport) list \<Rightarrow> fsError + environmentConfigState" where
  "addEnvConfigForPackage ops st realPathSandboxRootOnEjectingHost packageName packageJsonFilePath
       exportedEnv =
     (case addEnvConfigLoop ops (ecs_seenVars st) realPathSandboxRootOnEjectingHost packageName
             packageJsonFilePath exportedEnv (Map.empty, [], []) of
        Inl e \<Rightarrow> Inl e
      | Inr (nextSeenVars, nextErrors, nextNormalizedEnvVars) \<Rightarrow>
          Inr \<lparr>ecs_seenVars = ecs_seenVars st ++ nextSeenVars,
               ecs_errors = ecs_errors st @ nextErrors,
               ecs_normalizedEnvVars = ecs_normalizedEnvVars st @ nextNormalizedEnvVars\<rparr>)"

section \<open>Files, and rewriting a path inside a file (\<^verbatim>\<open>builders/util.js\<close>)\<close>

text \<open>
  The file system is an association list from absolute paths to nodes. A regular file has
  its bytes and its modification time (\<^verbatim>\<open>stat.mtime.getTime()\<close>, in milliseconds).
\<close>

datatype fsNode = RegularFile (fileContent: string) (fileMtime: int) | Directory

type_synonym fileSystem = "(string \<times> fsNode) list"

definition writeFile :: "int \<Rightarrow> fileSystem \<Rightarrow> string \<Rightarrow> string \<Rightarrow> fileSystem" where
  \<comment> \<open>\<open>now\<close> is the clock at the time of the write.\<close>
  "writeFile now fs filename content = AList.update filename (RegularFile content now) fs"






section \<open>Source checksums (\<^verbatim>\<open>lib/fs.js\<close>)\<close>

text \<open>
  The \<^verbatim>\<open>walkdir\<close> library reports every path below \<^verbatim>\<open>dirname\<close>, except those below a
  directory for which the handler called \<^verbatim>\<open>w.ignore\<close>. The ignored path itself is still
  reported.
\<close>

definition isUnder :: "string \<Rightarrow> string \<Rightarrow> bool" where
  "isUnder dir p = (prefix (dir @ ''/'') p \<and> length (dir @ ''/'') < length p)"

definition properAncestors :: "string \<Rightarrow> string list" where
  "properAncestors p = map (\<lambda>i. take i p) (filter (\<lambda>i. p ! i = CHR ''/'') [0..<length p])"

definition walkDir :: "fileSystem \<Rightarrow> string \<Rightarrow> (string \<Rightarrow> bool) \<Rightarrow> (string \<times> fsNode) list" where
  "walkDir fs dirname ignore =
     filter (\<lambda>(name, node). isUnder dirname name
                \<and> \<not> list_ex (\<lambda>a. isUnder dirname a \<and> ignore a) (properAncestors name)) fs"

text \<open>
  The handler of the \<^verbatim>\<open>path\<close> event fills the \<^verbatim>\<open>Map\<close> \<^verbatim>\<open>mtimes\<close>; the handler of
  \<^verbatim>\<open>end\<close> sorts its keys and feeds the values to the hasher. \<open>sortedMtimes\<close> is the list
  of arguments of \<^verbatim>\<open>hasher.update\<close>, in order; the digest of several updates is the
  digest of their concatenation.
\<close>

definition collectMtimes :: "(string \<times> fsNode) list \<Rightarrow> (string \<times> string) list" where
  "collectMtimes events =
     fold (\<lambda>(name, stat) mtimes.
             case stat of
               RegularFile content mtime \<Rightarrow> AList.update name (intToString mtime) mtimes
             | Directory \<Rightarrow> mtimes)
          events []"

definition sortedMtimes :: "fileSystem \<Rightarrow> string \<Rightarrow> (string \<Rightarrow> bool) \<Rightarrow> string list" where
  "sortedMtimes fs dirname ignore =
     (let mtimes = collectMtimes (walkDir fs dirname ignore);
          filenames = sort (map fst mtimes)
      in map (\<lambda>filename. case map_of mtimes filename of Some m \<Rightarrow> m | None \<Rightarrow> []) filenames)"

definition calculateMtimeChecksum ::
  "(string \<Rightarrow> string) \<Rightarrow> fileSystem \<Rightarrow> string \<Rightarrow> (string \<Rightarrow> bool) \<Rightarrow> string" where
  "calculateMtimeChecksum sha1 fs dirname ignore = sha1 (concat (sortedMtimes fs dirname ignore))"

section \<open>The build driver (\<^verbatim>\<open>simple-builder.js\<close>)\<close>

record buildTask =
  task_id :: string
  task_spec :: buildSpec
  task_env :: "(string \<times> string) list"
  task_command :: "(string \<times> string) list option"

datatype buildState =
    Success (state_timeEllapsed: "int option") (state_cached: bool) (state_forced: bool)
  | Failure string
  | InProgress

text \<open>
  What one run of \<^verbatim>\<open>performBuild\<close> does is outside the model (it spawns the build
  commands): it is a parameter that maps the task and the file system to the error thrown,
  if any, the file system left behind and the time taken.
\<close>

record buildOutcome =
  bo_error :: "string option"
  bo_fs :: fileSystem
  bo_time :: int

text \<open>
  The driver runs one task at a time here. Its state is the file system, the map
  \<^verbatim>\<open>taskInProgress\<close> (with each promise already resolved to its state), the calls of
  \<^verbatim>\<open>onTaskStatus\<close> so far, and the clock used for writes.
\<close>

record driverState =
  ds_fs :: fileSystem
  ds_taskInProgress :: "string \<rightharpoonup> buildState"
  ds_statusLog :: "(string \<times> buildState) list"
  ds_now :: int

definition IGNORE_FOR_CHECKSUM :: "string list" where
  "IGNORE_FOR_CHECKSUM = [''node_modules'', ''_build'', ''_install'', ''_esy'']"

definition fsExists :: "fileSystem \<Rightarrow> string \<Rightarrow> bool" where
  "fsExists fs path = (map_of fs path \<noteq> None)"

definition fsReadFile :: "fileSystem \<Rightarrow> string \<Rightarrow> fsError + string" where
  "fsReadFile fs path =
     (case map_of fs path of
        Some (RegularFile content mtime) \<Rightarrow> Inr content
      | _ \<Rightarrow> Inl (ENOENT path))"

definition isWhiteSpace :: "char \<Rightarrow> bool" where
  "isWhiteSpace c = (c \<in> set [CHR 0x09, CHR 0x0A, CHR 0x0B, CHR 0x0C, CHR 0x0D, CHR 0x20, CHR 0xA0])"

definition trim :: "string \<Rightarrow> string" where
  "trim s = rev (dropWhile isWhiteSpace (rev (dropWhile isWhiteSpace s)))"

definition isSpecExistsInStore :: "buildConfig \<Rightarrow> fileSystem \<Rightarrow> buildSpec \<Rightarrow> bool" where
  "isSpecExistsInStore cfg fs spec = fsExists fs (getFinalInstallPath cfg spec [])"

definition calculateSourceChecksum ::
  "(string \<Rightarrow> string) \<Rightarrow> buildConfig \<Rightarrow> fileSystem \<Rightarrow> buildSpec \<Rightarrow> string" where
  "calculateSourceChecksum sha1 cfg fs spec =
     (let ignoreForChecksum = set (map (\<lambda>s. getSourcePath cfg spec [s]) IGNORE_FOR_CHECKSUM)
      in calculateMtimeChecksum sha1 fs (getSourcePath cfg spec []) (\<lambda>name. name \<in> ignoreForChecksum))"


definition readSourceChecksum :: "buildConfig \<Rightarrow> fileSystem \<Rightarrow> buildSpec \<Rightarrow> fsError + string option" where
  "readSourceChecksum cfg fs spec =
     (let checksumFilename = getBuildPath cfg spec [''_esy'', ''checksum'']
      in if fsExists fs checksumFilename
         then (case fsReadFile fs checksumFilename of
                 Inl e \<Rightarrow> Inl e
               | Inr content \<Rightarrow> Inr (Some (trim content)))
         else Inr None)"

definition writeStoreChecksum :: "buildConfig \<Rightarrow> buildSpec \<Rightarrow> string \<Rightarrow> driverState \<Rightarrow> driverState" where
  "writeStoreChecksum cfg spec checksum st =
     (let checksumFilename = getBuildPath cfg spec [''_esy'', ''checksum'']
      in st\<lparr>ds_fs := writeFile (ds_now st) (ds_fs st) checksumFilename (trim checksum)\<rparr>)"

definition onTaskStatus :: "buildTask \<Rightarrow> buildState \<Rightarrow> driverState \<Rightarrow> driverState" where
  "onTaskStatus task status st = st\<lparr>ds_statusLog := ds_statusLog st @ [(task_id task, status)]\<rparr>"

definition cachedSuccessStatus :: buildState where
  "cachedSuccessStatus = Success None True False"

definition performBuildWithStatusReport ::
  "(buildTask \<Rightarrow> fileSystem \<Rightarrow> buildOutcome) \<Rightarrow> buildTask \<Rightarrow> bool \<Rightarrow> driverState
     \<Rightarrow> buildState \<times> driverState" where
  "performBuildWithStatusReport performBuild task forced st =
     (let st1 = onTaskStatus task InProgress st;
          outcome = performBuild task (ds_fs st1);
          st2 = st1\<lparr>ds_fs := bo_fs outcome\<rparr>
      in case bo_error outcome of
           Some error \<Rightarrow> (Failure error, onTaskStatus task (Failure error) st2)
         | None \<Rightarrow>
             (let state = Success (Some (bo_time outcome)) False forced
              in (state, onTaskStatus task state st2)))"

definition performBuildMemoized ::
  "(buildTask \<Rightarrow> fileSystem \<Rightarrow> buildOutcome) \<Rightarrow> (string \<Rightarrow> string) \<Rightarrow> buildConfig
     \<Rightarrow> buildTask \<Rightarrow> bool \<Rightarrow> driverState \<Rightarrow> fsError + buildState \<times> driverState" where
  "performBuildMemoized performBuild sha1 cfg task forced st =
     (let spec = task_spec task
      in case ds_taskInProgress st (task_id task) of
           Some inProgress \<Rightarrow> Inr (inProgress, st)
         | None \<Rightarrow>
             (case
                (if forced
                 then (if spec_shouldBePersisted spec
                       then Inr (performBuildWithStatusReport performBuild task True st)
                       else (case performBuildWithStatusReport performBuild task True st of
                               (result, st1) \<Rightarrow>
                                 (let currentChecksum = calculateSourceChecksum sha1 cfg (ds_fs st1) spec
                                  in Inr (result, writeStoreChecksum cfg spec currentChecksum st1))))
                 else
                   (let isInStore = isSpecExistsInStore cfg (ds_fs st) spec
                    in if spec_shouldBePersisted spec \<and> isInStore
                       then Inr (cachedSuccessStatus, onTaskStatus task cachedSuccessStatus st)
                       else if \<not> spec_shouldBePersisted spec
                       then (let currentChecksum = calculateSourceChecksum sha1 cfg (ds_fs st) spec
                             in case (if isInStore then readSourceChecksum cfg (ds_fs st) spec
                                      else Inr None) of
                                  Inl e \<Rightarrow> Inl e
                                | Inr stored \<Rightarrow>
                                    if isInStore \<and> stored = Some currentChecksum
                                    then Inr (cachedSuccessStatus,
                                              onTaskStatus task cachedSuccessStatus st)
                                    else (case performBuildWithStatusReport performBuild task True st of
                                            (result, st1) \<Rightarrow>
                                              Inr (result,
                                                   writeStoreChecksum cfg spec currentChecksum st1)))
                       else Inr (performBuildWithStatusReport performBuild task False st)))
              of
                Inl e \<Rightarrow> Inl e
              | Inr (inProgress, st') \<Rightarrow>
                  Inr (inProgress,
                       st'\<lparr>ds_taskInProgress := (ds_taskInProgress st')(task_id task \<mapsto> inProgress)\<rparr>)))"

text \<open>
  The reducer handed to \<^verbatim>\<open>Graph.topologicalFold\<close>; \<open>states\<close> are the final states of the
  task's direct dependencies, which the reducer awaits first.
\<close>

definition isFailure :: "buildState \<Rightarrow> bool" where
  "isFailure state = (case state of Failure error \<Rightarrow> True | _ \<Rightarrow> False)"

definition isForcedSuccess :: "buildState \<Rightarrow> bool" where
  "isForcedSuccess state = (case state of Success t c f \<Rightarrow> f | _ \<Rightarrow> False)"

definition buildReducer ::
  "(buildTask \<Rightarrow> fileSystem \<Rightarrow> buildOutcome) \<Rightarrow> (string \<Rightarrow> string) \<Rightarrow> buildConfig
     \<Rightarrow> buildState list \<Rightarrow> buildTask \<Rightarrow> driverState \<Rightarrow> fsError + buildState \<times> driverState" where
  "buildReducer performBuild sha1 cfg states task st =
     (if list_ex isFailure states
      then Inr (Failure ''dependencies are not built'', st)
      else if list_ex isForcedSuccess states
      then performBuildMemoized performBuild sha1 cfg task True st
      else performBuildMemoized performBuild sha1 cfg task False st)"

section \<open>A small sandbox for the concrete instances below\<close>

definition ex_cfg :: buildConfig where
  "ex_cfg = \<lparr>storePath = ''/store'', sandboxPath = ''/sb''\<rparr>"

definition ex_spec :: buildSpec where
  "ex_spec = BuildSpec ''app-1.0.0'' ''app'' (Some ''1.0.0'') (JObject []) None False False [] [] []"

definition ex_task :: buildTask where
  "ex_task = \<lparr>task_id = ''app-1.0.0'', task_spec = ex_spec, task_env = [], task_command = None\<rparr>"

definition ex_fs :: "int \<Rightarrow> fileSystem" where
  "ex_fs mtime = [(''/sb/a.ml'', RegularFile ''let x = 1'' mtime),
            (''/sb/b.ml'', RegularFile ''let y = 2'' 200),
            (''/sb/node_modules'', Directory),
            (''/sb/node_modules/dep.js'', RegularFile ''dep'' 300),
            (''/sb/node_modules/.cache/_esy/store/_install/app-1.0.0'', Directory),
            (''/sb/node_modules/.cache/_esy/store/_build/app-1.0.0/_esy/checksum'',
               RegularFile ''100200'' 400)]"

definition ex_state :: "fileSystem \<Rightarrow> driverState" where
  "ex_state fs = \<lparr>ds_fs = fs, ds_taskInProgress = Map.empty, ds_statusLog = [], ds_now = 500\<rparr>"

definition ex_performBuild :: "buildTask \<Rightarrow> fileSystem \<Rightarrow> buildOutcome" where
  "ex_performBuild task fs = \<lparr>bo_error = None, bo_fs = fs, bo_time = 7\<rparr>"


definition ex_esy :: jsvalue where
  "ex_esy = JObject
     [(''build'', JString ''make''),
      (''exportedEnv'', JObject
         [(''app__a'', JObject [(''val'', JString ''1''), (''scope'', JString ''global'')]),
          (''app__b'', JObject [(''val'', JString ''2'')])]),
      (''buildsInSource'', JBool False)]"

definition ex_esy_permuted :: jsvalue where
  "ex_esy_permuted = JObject
     [(''buildsInSource'', JBool False),
      (''exportedEnv'', JObject
         [(''app__b'', JObject [(''val'', JString ''2'')]),
          (''app__a'', JObject [(''scope'', JString ''global''), (''val'', JString ''1'')])]),
      (''build'', JString ''make'')]"

definition ex_manifest :: "jsvalue \<Rightarrow> (string \<times> string) list option \<Rightarrow> packageJson" where
  "ex_manifest esy devDeps =
     \<lparr>pkg_name = ''app'', pkg_version = Some ''1.0.0'', pkg_dependencies = Some [(''lib'', ''*'')],
      pkg_peerDependencies = devDeps, pkg_resolved = None, pkg_esy = esy\<rparr>"

definition ex_lib :: "string list \<Rightarrow> buildSpec" where
  "ex_lib errors =
     BuildSpec ''lib-2.0.0-abc'' ''lib'' (Some ''2.0.0'') (JObject []) None True False
       ''node_modules/lib'' [] errors"

section \<open>The sandbox crawler (\<^verbatim>\<open>build-sandbox.js\<close>)\<close>

text \<open>
  What the crawler reads from its host: the parsed \<^verbatim>\<open>package.json\<close> files by path
  (\<^verbatim>\<open>fs.readJson\<close> throws on any other path), module resolution
  (\<^verbatim>\<open>resolveToRealpath\<close>, which rejects when the module is not found), \<^verbatim>\<open>fs.realpath\<close>,
  \<^verbatim>\<open>path.dirname\<close> and \<^verbatim>\<open>path.relative\<close>, the digest, and the process's platform,
  architecture and \<^verbatim>\<open>ESY__TEST\<close> flag.
\<close>

record crawlWorld =
  w_manifests :: "(string \<times> packageJson) list"
  w_resolve :: "string \<Rightarrow> string \<Rightarrow> string option"
  w_realpath :: "string \<Rightarrow> string"
  w_dirname :: "string \<Rightarrow> string"
  w_relative :: "string \<Rightarrow> string \<Rightarrow> string"
  w_sha1 :: "string \<Rightarrow> string"
  w_platform :: string
  w_architecture :: string
  w_esyTest :: bool

datatype crawlError = ReadError string | TypeError string

record crawlContext =
  ctx_env :: jsvalue
  ctx_sandboxPath :: string
  ctx_dependencyTrace :: "string list"

text \<open>
  The two caches of \<^verbatim>\<open>fromDirectory\<close>. The build cache holds promises: an entry is
  \<open>Pending\<close> from the moment \<^verbatim>\<open>crawlBuild\<close> is called until it returns, and awaiting a
  pending entry from inside that very call never returns.
\<close>

datatype cacheEntry = Pending | Done buildSpec

record crawlState =
  cs_resolutionCache :: "string \<rightharpoonup> string option"
  cs_buildCache :: "string \<rightharpoonup> cacheEntry"

record buildSandbox =
  sandbox_env :: jsvalue
  sandbox_root :: buildSpec

definition envEntry :: "string \<Rightarrow> string \<Rightarrow> bool \<Rightarrow> string \<times> jsvalue" where
  "envEntry name value exclusive =
     (name, JObject [(''name'', JString name), (''value'', JString value),
                     (''exclusive'', JBool exclusive), (''builtIn'', JBool True),
                     (''exported'', JBool True)])"

definition getEnvironment :: "crawlWorld \<Rightarrow> jsvalue" where
  "getEnvironment w =
     (let platform = (if w_esyTest w then ''platform'' else w_platform w);
          architecture = (if w_esyTest w then ''architecture'' else w_architecture w)
      in JMap
           [envEntry ''PATH'' ''$PATH:/usr/local/bin:/usr/bin:/bin:/usr/sbin:/sbin'' False,
            envEntry ''SHELL'' ''env -i /bin/bash --norc --noprofile'' False,
            envEntry ''esy__platform'' platform True,
            envEntry ''esy__architecture'' architecture True,
            envEntry ''esy__target_platform'' platform True,
            envEntry ''esy__target_architecture'' architecture True])"

definition isNullish :: "jsvalue \<Rightarrow> bool" where
  \<comment> \<open>\<^verbatim>\<open>value == null\<close>\<close>
  "isNullish v = (v = JNull \<or> v = JUndefined)"

definition defaultProp :: "string \<Rightarrow> jsvalue \<Rightarrow> (string \<times> jsvalue) list \<Rightarrow> (string \<times> jsvalue) list" where
  \<comment> \<open>\<^verbatim>\<open>if (obj[key] == null) obj[key] = value\<close>\<close>
  "defaultProp key value obj = (if isNullish (getProp obj key) then AList.update key value obj else obj)"

definition readPackageJson :: "crawlWorld \<Rightarrow> string \<Rightarrow> crawlError + packageJson" where
  "readPackageJson w filename =
     (case map_of (w_manifests w) filename of
        None \<Rightarrow> Inl (ReadError filename)
      | Some packageJson \<Rightarrow>
          (let esy = (if isNullish (pkg_esy packageJson)
                      then JObject [(''build'', JNull), (''exportedEnv'', JObject []),
                                    (''buildsInSource'', JBool False)]
                      else pkg_esy packageJson)
           in case esy of
                JObject props \<Rightarrow>
                  Inr (packageJson\<lparr>pkg_esy :=
                         JObject (defaultProp ''buildsInSource'' (JBool False)
                                   (defaultProp ''exportedEnv'' (JObject [])
                                     (defaultProp ''build'' JNull props)))\<rparr>)
              | _ \<Rightarrow> Inl (TypeError filename)))"

definition parseDependencySpec :: "string \<Rightarrow> string" where
  \<comment> \<open>The \<^verbatim>\<open>name\<close> component of the result.\<close>
  "parseDependencySpec spec =
     (if prefix ''@'' spec
      then (case take 3 (splitOn (CHR ''@'') spec) of
              x # name # rest \<Rightarrow> ''@'' @ name
            | _ \<Rightarrow> ''@undefined'')
      else hd (splitOn (CHR ''@'') spec))"

fun addDependencySpecs :: "(string \<times> string) list \<Rightarrow> string list \<Rightarrow> string list" where
  "addDependencySpecs [] dependencySpecList = dependencySpecList"
| "addDependencySpecs ((name, versionSpec) # obj) dependencySpecList =
     (let dependencySpec = name @ ''@'' @ versionSpec
      in addDependencySpecs obj
           (if dependencySpec \<in> set dependencySpecList then dependencySpecList
            else dependencySpecList @ [dependencySpec]))"

definition objectToDependencySpecs :: "(string \<times> string) list option list \<Rightarrow> string list" where
  "objectToDependencySpecs objs =
     fold (\<lambda>obj dependencySpecList.
             case obj of None \<Rightarrow> dependencySpecList
                       | Some entries \<Rightarrow> addDependencySpecs entries dependencySpecList)
          objs []"

definition formatCircularDependenciesError :: "string \<Rightarrow> crawlContext \<Rightarrow> string" where
  "formatCircularDependenciesError dependency context =
     ''Circular dependency '' @ [CHR 0x22] @ dependency @ '' detected'' @ [CHR 0x0A]
     @ ''  At '' @ joinWith '' -> '' (ctx_dependencyTrace context)"

definition formatMissingPackagesError :: "string list \<Rightarrow> crawlContext \<Rightarrow> string" where
  "formatMissingPackagesError missingPackages context =
     (let packagesToReport = take 3 missingPackages;
          packagesMessage = joinWith '', '' (map (\<lambda>p. [CHR 0x22] @ p @ [CHR 0x22]) packagesToReport);
          extraPackagesMessage =
            (if length missingPackages > length packagesToReport
             then '' (and '' @ natToString (length missingPackages - length packagesToReport) @ '' more)''
             else [])
      in ''Cannot resolve '' @ packagesMessage @ extraPackagesMessage @ '' packages'' @ [CHR 0x0A]
         @ ''  At '' @ joinWith '' -> '' (ctx_dependencyTrace context) @ [CHR 0x0A]
         @ ''  Did you forget to run '' @ [CHR 0x22] @ ''esy install'' @ [CHR 0x22] @ '' command?'')"

definition resolveCached :: "crawlWorld \<Rightarrow> string \<Rightarrow> string \<Rightarrow> crawlState \<Rightarrow> string option \<times> crawlState" where
  "resolveCached w packageName baseDir st =
     (let key = baseDir @ ''__'' @ packageName
      in case cs_resolutionCache st key of
           Some resolution \<Rightarrow> (resolution, st)
         | None \<Rightarrow>
             (let resolution = w_resolve w packageName baseDir
              in (resolution, st\<lparr>cs_resolutionCache := (cs_resolutionCache st)(key \<mapsto> resolution)\<rparr>)))"

definition isTruthy :: "jsvalue \<Rightarrow> bool" where
  "isTruthy v =
     (case v of JNull \<Rightarrow> False | JUndefined \<Rightarrow> False | JBool b \<Rightarrow> b | JNumber n \<Rightarrow> n \<noteq> 0
      | JString s \<Rightarrow> s \<noteq> [] | _ \<Rightarrow> True)"

definition esyProp :: "packageJson \<Rightarrow> string \<Rightarrow> jsvalue" where
  "esyProp packageJson key = (case pkg_esy packageJson of JObject props \<Rightarrow> getProp props key | _ \<Rightarrow> JUndefined)"

definition mapSet :: "'k \<Rightarrow> 'v \<Rightarrow> ('k \<times> 'v) list \<Rightarrow> ('k \<times> 'v) list" where
  \<comment> \<open>\<^verbatim>\<open>Map.prototype.set\<close>: a new key goes last, an old key keeps its place.\<close>
  "mapSet k v m = AList.update k v m"

definition finishBuild ::
  "crawlWorld \<Rightarrow> crawlContext \<Rightarrow> string \<Rightarrow> packageJson \<Rightarrow> (string \<times> buildSpec) list
     \<Rightarrow> string list \<Rightarrow> buildSpec" where
  \<comment> \<open>The part of \<^verbatim>\<open>crawlBuild\<close> after \<^verbatim>\<open>crawlDependencies\<close> has returned.\<close>
  "finishBuild w context packageJsonPath packageJson dependencies errors =
     (let sourcePath = w_dirname w packageJsonPath;
          isRootBuild = (ctx_sandboxPath context = sourcePath);
          build = esyProp packageJson ''build'';
          command = (if isNullish build then None
                     else (case build of JArray commands \<Rightarrow> Some commands | _ \<Rightarrow> Some [build]));
          isInstalled = (pkg_resolved packageJson \<noteq> None);
          source = (case pkg_resolved packageJson of
                      Some resolved \<Rightarrow> if resolved = [] then ''local:'' @ w_realpath w sourcePath else resolved
                    | None \<Rightarrow> ''local:'' @ w_realpath w sourcePath);
          buildId = calculateBuildId (w_sha1 w) (w_esyTest w) (ctx_env context) packageJson source
                      dependencies
      in BuildSpec buildId (pkg_name packageJson) (pkg_version packageJson)
           (esyProp packageJson ''exportedEnv'') command
           (\<not> (isRootBuild \<or> \<not> isInstalled))
           (isTruthy (esyProp packageJson ''buildsInSource''))
           (w_relative w (ctx_sandboxPath context) sourcePath)
           dependencies errors)"

text \<open>
  \<^verbatim>\<open>crawlBuild\<close> and the loop of \<^verbatim>\<open>crawlDependencies\<close> (with \<^verbatim>\<open>crawlBuildCached\<close>
  written out where \<^verbatim>\<open>context.crawlBuild\<close> is called). The first argument bounds the depth
  of the recursion; \<open>None\<close> stands for a crawl that does not return. The accumulator of the
  loop is \<^verbatim>\<open>dependencies\<close>, \<^verbatim>\<open>errors\<close> and \<^verbatim>\<open>missingPackages\<close>.
\<close>

fun crawlBuild ::
  "nat \<Rightarrow> crawlWorld \<Rightarrow> crawlContext \<Rightarrow> string \<Rightarrow> crawlState
     \<Rightarrow> (crawlError + buildSpec \<times> crawlState) option"
and crawlDependenciesLoop ::
  "nat \<Rightarrow> crawlWorld \<Rightarrow> crawlContext \<Rightarrow> string \<Rightarrow> string list
     \<Rightarrow> (string \<times> buildSpec) list \<times> string list \<times> string list \<Rightarrow> crawlState
     \<Rightarrow> (crawlError + ((string \<times> buildSpec) list \<times> string list \<times> string list) \<times> crawlState) option"
where
  "crawlBuild 0 w context packageJsonPath st = None"
| "crawlBuild (Suc fuel) w context packageJsonPath st =
     (case readPackageJson w packageJsonPath of
        Inl e \<Rightarrow> Some (Inl e)
      | Inr packageJson \<Rightarrow>
          (let dependencySpecs =
                 objectToDependencySpecs [pkg_dependencies packageJson, pkg_peerDependencies packageJson];
               context' = context\<lparr>ctx_dependencyTrace :=
                                    ctx_dependencyTrace context @ [pkg_name packageJson]\<rparr>
           in case crawlDependenciesLoop fuel w context' (w_dirname w packageJsonPath)
                     dependencySpecs ([], [], []) st of
                None \<Rightarrow> None
              | Some (Inl e) \<Rightarrow> Some (Inl e)
              | Some (Inr ((dependencies, errors, missingPackages), st')) \<Rightarrow>
                  (let errors' = (if length missingPackages > 0
                                  then errors @ [formatMissingPackagesError missingPackages context']
                                  else errors)
                   in Some (Inr (finishBuild w context packageJsonPath packageJson dependencies errors',
                                 st')))))"
| "crawlDependenciesLoop fuel w context baseDir [] acc st = Some (Inr (acc, st))"
| "crawlDependenciesLoop fuel w context baseDir (spec # rest) (dependencies, errors, missingPackages) st =
     (let name = parseDependencySpec spec
      in if name \<in> set (ctx_dependencyTrace context)
         then crawlDependenciesLoop fuel w context baseDir rest
                (dependencies, errors @ [formatCircularDependenciesError name context], missingPackages) st
         else (case resolveCached w (name @ ''/package.json'') baseDir st of
                 (None, st1) \<Rightarrow>
                   crawlDependenciesLoop fuel w context baseDir rest
                     (dependencies, errors, missingPackages @ [name]) st1
               | (Some dependencyPackageJsonPath, st1) \<Rightarrow>
                   (case cs_buildCache st1 dependencyPackageJsonPath of
                      Some Pending \<Rightarrow> None
                    | Some (Done build) \<Rightarrow>
                        crawlDependenciesLoop fuel w context baseDir rest
                          (mapSet (spec_id build) build dependencies, errors @ spec_errors build,
                           missingPackages) st1
                    | None \<Rightarrow>
                        (case crawlBuild fuel w context dependencyPackageJsonPath
                                (st1\<lparr>cs_buildCache :=
                                       (cs_buildCache st1)(dependencyPackageJsonPath \<mapsto> Pending)\<rparr>) of
                           None \<Rightarrow> None
                         | Some (Inl e) \<Rightarrow> Some (Inl e)
                         | Some (Inr (build, st2)) \<Rightarrow>
                             crawlDependenciesLoop fuel w context baseDir rest
                               (mapSet (spec_id build) build dependencies, errors @ spec_errors build,
                                missingPackages)
                               (st2\<lparr>cs_buildCache :=
                                      (cs_buildCache st2)(dependencyPackageJsonPath \<mapsto> Done build)\<rparr>)))))"

definition fromDirectory :: "nat \<Rightarrow> crawlWorld \<Rightarrow> string \<Rightarrow> (crawlError + buildSandbox) option" where
  "fromDirectory fuel w directory =
     (let env = getEnvironment w;
          crawlContext = \<lparr>ctx_env = env, ctx_sandboxPath = directory, ctx_dependencyTrace = []\<rparr>;
          packageJsonPath = pathJoin [directory, ''package.json'']
      in case crawlBuild fuel w crawlContext packageJsonPath
                \<lparr>cs_resolutionCache = Map.empty, cs_buildCache = Map.empty\<rparr> of
           None \<Rightarrow> None
         | Some (Inl e) \<Rightarrow> Some (Inl e)
         | Some (Inr (root, st)) \<Rightarrow> Some (Inr \<lparr>sandbox_env = env, sandbox_root = root\<rparr>))"

section \<open>Properties of package name normalisation\<close>

lemma replaceChar_Nil [simp]: "replaceChar c r [] = []"
  by (simp add: replaceChar_def)

lemma replaceChar_Cons [simp]:
  "replaceChar c r (x # xs) = (if x = c then r else [x]) @ replaceChar c r xs"
  by (simp add: replaceChar_def)

lemma replaceChar_append [simp]:
  "replaceChar c r (xs @ ys) = replaceChar c r xs @ replaceChar c r ys"
  by (simp add: replaceChar_def)

lemma replaceChar_absent: "c \<notin> set s \<Longrightarrow> replaceChar c r s = s"
  by (induction s) auto

lemma replaceChar_empty_filter: "replaceChar c [] s = filter (\<lambda>x. x \<noteq> c) s"
  by (induction s) auto

lemma set_replaceChar: "set (replaceChar c r s) \<subseteq> (set s - {c}) \<union> set r"
  by (induction s) auto

lemma takeWhile_replicate: "takeWhile (\<lambda>x. x = a) xs = replicate (length (takeWhile (\<lambda>x. x = a) xs)) a"
  by (induction xs) auto

lemma replicate_append_two: "replicate n a @ [a, a] = a # a # replicate n a"
  by (induction n) auto

lemma passes_normalizeRuns:
  "replaceChar (CHR ''-'') ''_''
     (replaceChar (CHR ''.'') ''__dot__''
       (replaceChar (CHR ''/'') ''__slash__'' (appendToUnderscoreRuns s))) = normalizeRuns s"
proof (induction s rule: normalizeRuns.induct)
  case 1
  then show ?case by simp
next
  case (2 c cs)
  show ?case
  proof (cases "c = CHR ''_''")
    case True
    let ?run = "takeWhile (\<lambda>x. x = CHR ''_'') cs"
    have run: "?run = replicate (length ?run) (CHR ''_'')" by (rule takeWhile_replicate)
    have keep: "\<And>d r. d \<noteq> CHR ''_'' \<Longrightarrow> replaceChar d r ?run = ?run"
      by (rule replaceChar_absent) (metis run in_set_replicate)
    have "replicate (length ?run) (CHR ''_'') @ ''__'' = CHR ''_'' # CHR ''_'' # replicate (length ?run) (CHR ''_'')"
      by (rule replicate_append_two)
    then have tail: "?run @ ''__'' = CHR ''_'' # CHR ''_'' # replicate (length ?run) (CHR ''_'')"
      using run by simp
    from True 2(1) show ?thesis
      by (simp add: keep tail Let_def)
  next
    case False
    with 2 show ?thesis by simp
  qed
qed

lemma set_appendToUnderscoreRuns: "set (appendToUnderscoreRuns s) \<subseteq> set s \<union> {CHR ''_''}"
proof (induction s rule: appendToUnderscoreRuns.induct)
  case 1
  then show ?case by simp
next
  case (2 c cs)
  have "set (takeWhile (\<lambda>x. x = CHR ''_'') cs) \<subseteq> set cs" by (auto dest: set_takeWhileD)
  moreover have "set (dropWhile (\<lambda>x. x = CHR ''_'') cs) \<subseteq> set cs" by (auto dest: set_dropWhileD)
  ultimately show ?case using 2 by (auto simp: Let_def; blast)
qed

lemma toLowerCaseChar_NUL: "toLowerCaseChar c = CHR 0x00 \<Longrightarrow> c = CHR 0x00"
proof -
  assume a: "toLowerCaseChar c = CHR 0x00"
  let ?n = "of_char c :: nat"
  show ?thesis
  proof (cases "(65 \<le> ?n \<and> ?n \<le> 90) \<or> (192 \<le> ?n \<and> ?n \<le> 222 \<and> ?n \<noteq> 215)")
    case True
    then have "toLowerCaseChar c = char_of (?n + 32)" by (simp add: toLowerCaseChar_def Let_def)
    then have "(of_char (toLowerCaseChar c) :: nat) = (?n + 32) mod 256" by simp
    with True have "(of_char (toLowerCaseChar c) :: nat) = ?n + 32" by auto
    with a show ?thesis by simp
  next
    case False
    then have "toLowerCaseChar c = c" by (auto simp: toLowerCaseChar_def Let_def)
    with a show ?thesis by simp
  qed
qed

lemma normalizePackageName_no_slash: "CHR ''/'' \<notin> set (normalizePackageName name)"
proof -
  let ?a = "appendToUnderscoreRuns (replaceChar (CHR ''@'') [] (toLowerCase name))"
  let ?b = "replaceChar (CHR ''/'') ''__slash__'' ?a"
  let ?c = "replaceChar (CHR ''.'') ''__dot__'' ?b"
  have "CHR ''/'' \<notin> set ?b" using set_replaceChar [of "CHR ''/''" "''__slash__''" ?a] by auto
  then have "CHR ''/'' \<notin> set ?c" using set_replaceChar [of "CHR ''.''" "''__dot__''" ?b] by auto
  then have "CHR ''/'' \<notin> set (replaceChar (CHR ''-'') ''_'' ?c)"
    using set_replaceChar [of "CHR ''-''" "''_''" ?c] by auto
  then show ?thesis by (simp add: normalizePackageName_def)
qed

lemma normalizePackageName_no_NUL:
  assumes "CHR 0x00 \<notin> set name"
  shows "CHR 0x00 \<notin> set (normalizePackageName name)"
proof -
  let ?l = "toLowerCase name"
  let ?s = "replaceChar (CHR ''@'') [] ?l"
  let ?a = "appendToUnderscoreRuns ?s"
  let ?b = "replaceChar (CHR ''/'') ''__slash__'' ?a"
  let ?c = "replaceChar (CHR ''.'') ''__dot__'' ?b"
  have "CHR 0x00 \<notin> set ?l" using assms by (auto simp: toLowerCase_def dest: toLowerCaseChar_NUL [OF sym])
  then have "CHR 0x00 \<notin> set ?s" using set_replaceChar [of "CHR ''@''" "[]" ?l] by auto
  then have "CHR 0x00 \<notin> set ?a" using set_appendToUnderscoreRuns [of ?s] by auto
  then have "CHR 0x00 \<notin> set ?b" using set_replaceChar [of "CHR ''/''" "''__slash__''" ?a] by auto
  then have "CHR 0x00 \<notin> set ?c" using set_replaceChar [of "CHR ''.''" "''__dot__''" ?b] by auto
  then have "CHR 0x00 \<notin> set (replaceChar (CHR ''-'') ''_'' ?c)"
    using set_replaceChar [of "CHR ''-''" "''_''" ?c] by auto
  then show ?thesis by (simp add: normalizePackageName_def)
qed

lemma toLowerCase_ascii_simps:
  "toLowerCaseChar (CHR ''a'') = CHR ''a''" "toLowerCaseChar (CHR ''_'') = CHR ''_''"
  "toLowerCaseChar (CHR ''b'') = CHR ''b''"
  by (simp_all add: toLowerCaseChar_def)

lemma dash_not_dots: "CHR ''-'' \<in> set s \<Longrightarrow> s \<noteq> [] \<and> s \<noteq> ''.'' \<and> s \<noteq> ''..''"
  by auto

text \<open>
  C5 (as amended). \<^verbatim>\<open>normalizePackageName\<close> lower-cases the name, strips every
  \<^verbatim>\<open>@\<close>, appends two underscores to every maximal run of underscores (a run of \<open>n\<close>
  becomes \<open>n + 2\<close>), maps \<^verbatim>\<open>/\<close> to \<^verbatim>\<open>__slash__\<close>, \<^verbatim>\<open>.\<close> to \<^verbatim>\<open>__dot__\<close> and \<^verbatim>\<open>-\<close>
  to \<^verbatim>\<open>_\<close>. The build id is a valid POSIX path component whenever the name has no NUL,
  the version (or its default) has neither a slash nor a NUL, and the digest has neither.
\<close>

theorem normalizePackageName_single_pass:
  "normalizePackageName name = normalizeRuns (filter (\<lambda>c. c \<noteq> CHR ''@'') (toLowerCase name))
   \<and> (CHR 0x00 \<notin> set (pkg_name pj)
        \<and> CHR ''/'' \<notin> set (versionOrDefault (pkg_version pj))
        \<and> CHR 0x00 \<notin> set (versionOrDefault (pkg_version pj))
        \<and> (\<forall>s. CHR ''/'' \<notin> set (sha1 s) \<and> CHR 0x00 \<notin> set (sha1 s))
      \<longrightarrow> validPathComponent (calculateBuildId sha1 esyTest env pj source deps))"
proof (intro conjI impI)
  show "normalizePackageName name = normalizeRuns (filter (\<lambda>c. c \<noteq> CHR ''@'') (toLowerCase name))"
    unfolding normalizePackageName_def replaceChar_empty_filter by (rule passes_normalizeRuns)
next
  assume a: "CHR 0x00 \<notin> set (pkg_name pj)
        \<and> CHR ''/'' \<notin> set (versionOrDefault (pkg_version pj))
        \<and> CHR 0x00 \<notin> set (versionOrDefault (pkg_version pj))
        \<and> (\<forall>s. CHR ''/'' \<notin> set (sha1 s) \<and> CHR 0x00 \<notin> set (sha1 s))"
  let ?n = "normalizePackageName (pkg_name pj)"
  let ?v = "versionOrDefault (pkg_version pj)"
  let ?h = "hash sha1 (buildIdInput env pj source deps)"
  have h: "CHR ''/'' \<notin> set ?h \<and> CHR 0x00 \<notin> set ?h"
  proof -
    have "\<And>v. CHR ''/'' \<notin> set (hash sha1 v) \<and> CHR 0x00 \<notin> set (hash sha1 v)"
    proof -
      fix v show "CHR ''/'' \<notin> set (hash sha1 v) \<and> CHR 0x00 \<notin> set (hash sha1 v)"
        using a by (induction sha1 v rule: hash.induct) (simp_all add: Let_def)
    qed
    then show ?thesis by blast
  qed
  have n: "CHR ''/'' \<notin> set ?n \<and> CHR 0x00 \<notin> set ?n"
    using a normalizePackageName_no_slash normalizePackageName_no_NUL by blast
  have d1: "CHR ''-'' \<in> set (?n @ ''-'' @ ?v)" by simp
  have d2: "CHR ''-'' \<in> set (?n @ ''-'' @ ?v @ ''-'' @ ?h)" by simp
  note dash = dash_not_dots [OF d1] dash_not_dots [OF d2]
  show "validPathComponent (calculateBuildId sha1 esyTest env pj source deps)"
    using a h n dash unfolding validPathComponent_def calculateBuildId_def Let_def by auto
qed

theorem normalizePackageName_single_pass_witness:
  "normalizePackageName ''@Opam/foo_bar.x-y'' = ''opam__slash__foo___bar__dot__x_y''
   \<and> validPathComponent
        (calculateBuildId (\<lambda>s. ''da39a3ee5e6b4b0d3255bfef95601890afd80709'') False (JMap [])
           \<lparr>pkg_name = ''@Opam/foo_bar.x-y'', pkg_version = Some ''1.2.3'',
            pkg_dependencies = None, pkg_peerDependencies = None, pkg_resolved = None,
            pkg_esy = JObject []\<rparr> ''local:/sandbox'' [])"
proof -
  let ?pj = "\<lparr>pkg_name = ''@Opam/foo_bar.x-y'', pkg_version = Some ''1.2.3'',
            pkg_dependencies = None, pkg_peerDependencies = None, pkg_resolved = None,
            pkg_esy = JObject []\<rparr>"
  let ?sha = "\<lambda>s :: string. ''da39a3ee5e6b4b0d3255bfef95601890afd80709''"
  have run: "normalizeRuns (filter (\<lambda>c. c \<noteq> CHR ''@'') (toLowerCase ''@Opam/foo_bar.x-y''))
      = ''opam__slash__foo___bar__dot__x_y''"
    by code_simp
  have hyp: "CHR 0x00 \<notin> set (pkg_name ?pj)
        \<and> CHR ''/'' \<notin> set (versionOrDefault (pkg_version ?pj))
        \<and> CHR 0x00 \<notin> set (versionOrDefault (pkg_version ?pj))
        \<and> (\<forall>s. CHR ''/'' \<notin> set (?sha s) \<and> CHR 0x00 \<notin> set (?sha s))"
    by (simp add: versionOrDefault_def)
  from normalizePackageName_single_pass
    [of "''@Opam/foo_bar.x-y''" ?pj ?sha False "JMap []" "''local:/sandbox''" "[]"] run hyp
  show ?thesis by (simp only: simp_thms)
qed

text \<open>
  C5 as stated fails: one underscore becomes three, not two; and a version with a slash
  gives an id that is not a path component.
\<close>

theorem normalizePackageName_counterexample:
  "normalizePackageName ''a_b'' = ''a___b''
   \<and> normalizeAsClaimed ''a_b'' = ''a__b''
   \<and> \<not> validPathComponent
        (calculateBuildId (\<lambda>s. ''da39a3ee5e6b4b0d3255bfef95601890afd80709'') False (JMap [])
           \<lparr>pkg_name = ''a'', pkg_version = Some ''1/2'',
            pkg_dependencies = None, pkg_peerDependencies = None, pkg_resolved = None,
            pkg_esy = JObject []\<rparr> ''local:/sandbox'' [])"
  by code_simp

section \<open>Exclusivity diagnostics\<close>

lemma length_overrideExclusiveMessage:
  "length (overrideExclusiveMessage b envVar setBy packageName)
     = (if b then 18 else 0) + length envVar + length setBy + length packageName + 147"
  by (simp add: overrideExclusiveMessage_def)

lemma length_declareExclusiveMessage:
  "length (declareExclusiveMessage envVar setBy packageName)
     = length envVar + length setBy + length packageName + 175"
  by (simp add: declareExclusiveMessage_def)

lemma messages_distinct:
  "overrideExclusiveMessage b envVar setBy packageName \<noteq> declareExclusiveMessage envVar setBy packageName"
proof
  assume "overrideExclusiveMessage b envVar setBy packageName = declareExclusiveMessage envVar setBy packageName"
  then have "length (overrideExclusiveMessage b envVar setBy packageName)
      = length (declareExclusiveMessage envVar setBy packageName)" by simp
  then show False
    unfolding length_overrideExclusiveMessage length_declareExclusiveMessage by (simp split: if_splits)
qed

text \<open>
  C7. When the name being added already has an entry in \<open>seenVars\<close> whose descriptor is
  exclusive, and the new descriptor is exclusive too, \<^verbatim>\<open>addEnvConfigForPackage\<close> emits
  exactly two messages for that name, in this order and different from each other: the
  override message, which starts with \<^verbatim>\<open>Built-in variable\<close> exactly when the incumbent
  is a built-in, and the message for declaring an exclusive binding over an existing name.
  (\<^verbatim>\<open>relativeToSandbox\<close> must not throw: the incumbent's path resolves.)
\<close>

theorem exclusive_over_exclusive_two_messages:
  assumes seen: "ecs_seenVars st envVar = Some incumbent"
    and inc: "ev_exclusive (sv_config incumbent)"
    and new: "ev_exclusive config"
    and rel: "relativeToSandbox ops root (sv_packageJsonPath incumbent) = Inr setBy"
  shows "\<exists>st'. addEnvConfigForPackage ops st root packageName packageJsonFilePath [(envVar, config)] = Inr st'
           \<and> ecs_errors st' = ecs_errors st @
                [(if ev_builtIn (sv_config incumbent) then ''Built-in variable '' else [])
                   @ envVar @ '' has already been set by '' @ setBy @ '' ''
                   @ ''which configured it with exclusive:true. That means it wants to be the only one to set it. Yet ''
                   @ packageName @ '' is trying to override it.'',
                 declareExclusiveMessage envVar setBy packageName]
           \<and> exclusivityErrors ops (ecs_seenVars st) root packageName envVar config
                = Inr [overrideExclusiveMessage (ev_builtIn (sv_config incumbent)) envVar setBy packageName,
                       declareExclusiveMessage envVar setBy packageName]
           \<and> overrideExclusiveMessage (ev_builtIn (sv_config incumbent)) envVar setBy packageName
                \<noteq> declareExclusiveMessage envVar setBy packageName"
  using assms messages_distinct
  by (simp add: addEnvConfigForPackage_def exclusivityErrors_def overrideExclusiveMessage_def)

theorem exclusive_over_exclusive_two_messages_witness:
  "\<exists>st'. addEnvConfigForPackage
           \<lparr>realpathSync = Some, pathIsInside = (\<lambda>a b. False), pathRelative = (\<lambda>a b. b)\<rparr>
           \<lparr>ecs_seenVars = [''CONFLICT'' \<mapsto>
              \<lparr>sv_packageJsonPath = ''node_modules/a/package.json'',
               sv_config = \<lparr>ev_val = Some ''1'', ev_scope = None, ev_exclusive = True,
                            ev_builtIn = False\<rparr>\<rparr>],
            ecs_errors = [], ecs_normalizedEnvVars = []\<rparr>
           ''/sandbox'' ''b'' ''node_modules/b/package.json''
           [(''CONFLICT'', \<lparr>ev_val = Some ''2'', ev_scope = None, ev_exclusive = True,
                            ev_builtIn = False\<rparr>)] = Inr st'
     \<and> ecs_errors st' =
        [''CONFLICT has already been set by $esy__sandbox/node_modules/a/package.json which configured it with exclusive:true. That means it wants to be the only one to set it. Yet b is trying to override it.'',
         ''CONFLICT has already been set by $esy__sandbox/node_modules/a/package.json and b has configured it with exclusive:true. Sometimes you can reduce the likehood of conflicts by marking some packages as buildTimeOnlyDependencies.'']"
proof -
  let ?ops = "\<lparr>realpathSync = Some, pathIsInside = (\<lambda>a b. False), pathRelative = (\<lambda>a b. b)\<rparr>"
  let ?inc = "\<lparr>sv_packageJsonPath = ''node_modules/a/package.json'',
               sv_config = \<lparr>ev_val = Some ''1'', ev_scope = None, ev_exclusive = True,
                            ev_builtIn = False\<rparr>\<rparr>"
  let ?st = "\<lparr>ecs_seenVars = [''CONFLICT'' \<mapsto> ?inc], ecs_errors = [], ecs_normalizedEnvVars = []\<rparr>"
  let ?cfg = "\<lparr>ev_val = Some ''2'', ev_scope = None, ev_exclusive = True, ev_builtIn = False\<rparr>"
  have rel: "relativeToSandbox ?ops ''/sandbox'' (sv_packageJsonPath ?inc)
      = Inr ''$esy__sandbox/node_modules/a/package.json''"
    by (simp add: relativeToSandbox_def)
  have "\<exists>st'. addEnvConfigForPackage ?ops ?st ''/sandbox'' ''b'' ''node_modules/b/package.json''
            [(''CONFLICT'', ?cfg)] = Inr st'
      \<and> ecs_errors st' = ecs_errors ?st @
           [(if ev_builtIn (sv_config ?inc) then ''Built-in variable '' else [])
              @ ''CONFLICT'' @ '' has already been set by ''
              @ ''$esy__sandbox/node_modules/a/package.json'' @ '' ''
              @ ''which configured it with exclusive:true. That means it wants to be the only one to set it. Yet ''
              @ ''b'' @ '' is trying to override it.'',
            declareExclusiveMessage ''CONFLICT'' ''$esy__sandbox/node_modules/a/package.json'' ''b'']"
    using exclusive_over_exclusive_two_messages
      [of ?st "''CONFLICT''" ?inc ?cfg ?ops "''/sandbox''"
          "''$esy__sandbox/node_modules/a/package.json''" "''b''" "''node_modules/b/package.json''"]
      rel
    by (simp, blast)
  then show ?thesis by (simp add: declareExclusiveMessage_def)
qed

section \<open>Install paths have equal length\<close>

lemma splitOn_nonempty [simp]: "splitOn c s \<noteq> []"
  by (induction s) (auto split: list.splits)

lemma splitOn_append: "splitOn c (a @ c # b) = splitOn c a @ splitOn c b"
  by (induction a) (auto split: list.splits)

lemma splitOn_absent: "c \<notin> set s \<Longrightarrow> splitOn c s = [s]"
  by (induction s) auto

text \<open>Two path segments are related when they are equal or are the two tree names.\<close>

definition sameUpToTree :: "string \<Rightarrow> string \<Rightarrow> bool" where
  "sameUpToTree a b = (a = b \<or> (a = ''_insttmp'' \<and> b = ''_install''))"

lemma sameUpToTree_refl [simp]: "sameUpToTree a a"
  by (simp add: sameUpToTree_def)

lemma list_all2_sameUpToTree_refl [simp]: "list_all2 sameUpToTree xs xs"
  by (simp add: list_all2_refl)

lemma sameUpToTree_length: "sameUpToTree a b \<Longrightarrow> length a = length b"
  by (auto simp: sameUpToTree_def)

lemma sameUpToTree_special:
  "sameUpToTree a b \<Longrightarrow> (a = [] \<longleftrightarrow> b = []) \<and> (a = ''.'' \<longleftrightarrow> b = ''.'') \<and> (a = ''..'' \<longleftrightarrow> b = ''..'')"
  by (auto simp: sameUpToTree_def)

lemma list_all2_butlast: "list_all2 P xs ys \<Longrightarrow> list_all2 P (butlast xs) (butlast ys)"
  by (induction xs ys rule: list_all2_induct) (auto simp: list_all2_Nil dest: list_all2_lengthD)

lemma list_all2_last: "list_all2 P xs ys \<Longrightarrow> xs \<noteq> [] \<Longrightarrow> P (last xs) (last ys)"
  by (induction xs ys rule: list_all2_induct) (auto simp: list_all2_Nil dest: list_all2_lengthD)

lemma normalizeSegments_related:
  "list_all2 sameUpToTree xs ys \<Longrightarrow> list_all2 sameUpToTree res res'
   \<Longrightarrow> list_all2 sameUpToTree (normalizeSegments allow xs res) (normalizeSegments allow ys res')"
proof (induction xs arbitrary: ys res res')
  case Nil
  then show ?case by simp
next
  case (Cons x xs)
  then obtain y ys' where ys: "ys = y # ys'" and xy: "sameUpToTree x y"
    and rest: "list_all2 sameUpToTree xs ys'"
    by (auto simp: list_all2_Cons1)
  note sp = sameUpToTree_special [OF xy]
  have emp: "res = [] \<longleftrightarrow> res' = []" using Cons.prems(2) by (auto dest: list_all2_lengthD)
  have lastdd: "res \<noteq> [] \<Longrightarrow> (last res = ''..'' \<longleftrightarrow> last res' = ''..'')"
    using list_all2_last [OF Cons.prems(2)] sameUpToTree_special by blast
  have bl: "list_all2 sameUpToTree (butlast res) (butlast res')"
    using Cons.prems(2) by (rule list_all2_butlast)
  have push: "list_all2 sameUpToTree (res @ [x]) (res' @ [y])"
    using Cons.prems(2) xy by (simp add: list_all2_appendI)
  have pushdd: "list_all2 sameUpToTree (res @ [''..'']) (res' @ [''..''])"
    using Cons.prems(2) by (simp add: list_all2_appendI)
  show ?case
    using sp emp lastdd Cons.IH [OF rest bl] Cons.IH [OF rest push] Cons.IH [OF rest pushdd]
      Cons.IH [OF rest Cons.prems(2)]
    by (auto simp: ys)
qed

lemma joinWith_related:
  "list_all2 sameUpToTree xs ys
   \<Longrightarrow> length (joinWith sep xs) = length (joinWith sep ys) \<and> (joinWith sep xs = [] \<longleftrightarrow> joinWith sep ys = [])"
proof (induction sep xs arbitrary: ys rule: joinWith.induct)
  case (1 sep)
  then show ?case by simp
next
  case (2 sep x)
  then show ?case by (auto simp: list_all2_Cons1 sameUpToTree_def)
next
  case (3 sep x y ys zs)
  from 3(2) obtain x' y' zs' where zs: "zs = x' # y' # zs'" and xx: "sameUpToTree x x'"
    and rest: "list_all2 sameUpToTree (y # ys) (y' # zs')"
    by (auto simp: list_all2_Cons1)
  from 3(1) [OF rest] sameUpToTree_length [OF xx] sameUpToTree_special [OF xx]
  show ?case by (auto simp: zs)
qed

text \<open>The joined argument string around the tree name.\<close>

lemma joinWith_Cons: "joinWith sep (x # xs) = x @ concat (map (\<lambda>b. sep @ b) xs)"
  by (induction sep xs arbitrary: x rule: joinWith.induct) auto

lemma splitOn_slash_suffix:
  "splitOn (CHR ''/'') (t @ concat (map ((#) (CHR ''/'')) bs))
     = splitOn (CHR ''/'') t @ concat (map (splitOn (CHR ''/'')) bs)"
proof (induction bs arbitrary: t)
  case Nil
  then show ?case by simp
next
  case (Cons b bs)
  have "splitOn (CHR ''/'') (t @ concat (map ((#) (CHR ''/'')) (b # bs)))
      = splitOn (CHR ''/'') (t @ CHR ''/'' # (b @ concat (map ((#) (CHR ''/'')) bs)))" by simp
  also have "\<dots> = splitOn (CHR ''/'') t @ splitOn (CHR ''/'') (b @ concat (map ((#) (CHR ''/'')) bs))"
    by (rule splitOn_append)
  also have "\<dots> = splitOn (CHR ''/'') t @ splitOn (CHR ''/'') b @ concat (map (splitOn (CHR ''/'')) bs)"
    by (simp only: Cons.IH)
  finally show ?case by simp
qed

lemma splitOn_joinWith:
  "xs \<noteq> [] \<Longrightarrow> splitOn (CHR ''/'') (joinWith ''/'' xs) = concat (map (splitOn (CHR ''/'')) xs)"
  by (cases xs) (simp_all add: joinWith_Cons splitOn_slash_suffix)

lemma hd_joinWith: "xs \<noteq> [] \<Longrightarrow> [] \<notin> set xs \<Longrightarrow> hd (joinWith sep xs) = hd (hd xs)"
  by (cases xs) (auto simp: joinWith_Cons)

lemma last_joinWith: "xs \<noteq> [] \<Longrightarrow> [] \<notin> set xs \<Longrightarrow> last (joinWith sep xs) = last (last xs)"
proof (induction sep xs rule: joinWith.induct)
  case (3 sep x y ys)
  then have "joinWith sep (y # ys) \<noteq> []" by (cases ys) auto
  with 3 show ?case by simp
qed simp_all

lemma joinWith_nonempty: "xs \<noteq> [] \<Longrightarrow> [] \<notin> set xs \<Longrightarrow> joinWith sep xs \<noteq> []"
  by (cases xs) (auto simp: joinWith_Cons)

lemma pathNormalize_related:
  assumes xs: "xs \<noteq> []" "[] \<notin> set xs" and ys: "[] \<notin> set ys"
    and rel: "list_all2 sameUpToTree xs ys"
    and hd: "hd (hd xs) = hd (hd ys)"
    and lst: "(last (last xs) = CHR ''/'') = (last (last ys) = CHR ''/'')"
    and split: "list_all2 sameUpToTree (concat (map (splitOn (CHR ''/'')) xs)) (concat (map (splitOn (CHR ''/'')) ys))"
  shows "length (pathNormalize (joinWith ''/'' xs)) = length (pathNormalize (joinWith ''/'' ys))"
proof -
  have ysn: "ys \<noteq> []" using rel xs(1) by (auto dest: list_all2_lengthD)
  let ?p = "joinWith ''/'' xs" and ?q = "joinWith ''/'' ys"
  have ne: "?p \<noteq> []" "?q \<noteq> []" using xs ys ysn by (simp_all add: joinWith_nonempty)
  have h: "hd ?p = hd ?q" using xs ys ysn hd by (simp add: hd_joinWith)
  have l: "(last ?p = CHR ''/'') = (last ?q = CHR ''/'')" using xs ys ysn lst by (simp add: last_joinWith)
  have sp: "list_all2 sameUpToTree (splitOn (CHR ''/'') ?p) (splitOn (CHR ''/'') ?q)"
    using split xs(1) ysn by (simp add: splitOn_joinWith)
  have rel': "\<And>allow. list_all2 sameUpToTree
          (normalizeSegments allow (splitOn (CHR ''/'') ?p) [])
          (normalizeSegments allow (splitOn (CHR ''/'') ?q) [])"
    by (rule normalizeSegments_related [OF sp]) simp
  show ?thesis
  proof (cases "hd ?q = CHR ''/''")
    case True
    with joinWith_related [OF rel' [of False], of "''/''"] ne h l show ?thesis
      by (simp add: pathNormalize_def Let_def)
  next
    case False
    with joinWith_related [OF rel' [of True], of "''/''"] ne h l show ?thesis
      by (simp add: pathNormalize_def Let_def)
  qed
qed

lemma pathJoin_tree_length:
  "length (pathJoin (root # ''_insttmp'' # rest)) = length (pathJoin (root # ''_install'' # rest))"
proof -
  let ?A = "filter (\<lambda>arg. arg \<noteq> []) [root]"
  let ?B = "filter (\<lambda>arg. arg \<noteq> []) rest"
  let ?xs = "?A @ [''_insttmp''] @ ?B" and ?ys = "?A @ [''_install''] @ ?B"
  have gx: "filter (\<lambda>arg. arg \<noteq> []) (root # ''_insttmp'' # rest) = ?xs" by simp
  have gy: "filter (\<lambda>arg. arg \<noteq> []) (root # ''_install'' # rest) = ?ys" by simp
  have tree: "sameUpToTree ''_insttmp'' ''_install''" by (simp add: sameUpToTree_def)
  have rel: "list_all2 sameUpToTree ?xs ?ys"
    by (intro list_all2_appendI) (simp_all add: tree)
  have split: "list_all2 sameUpToTree (concat (map (splitOn (CHR ''/'')) ?xs))
      (concat (map (splitOn (CHR ''/'')) ?ys))"
    by (simp add: tree list_all2_appendI)
  have hd: "hd (hd ?xs) = hd (hd ?ys)" by simp
  have lst: "(last (last ?xs) = CHR ''/'') = (last (last ?ys) = CHR ''/'')" by simp
  have "length (pathNormalize (joinWith ''/'' ?xs)) = length (pathNormalize (joinWith ''/'' ?ys))"
    by (rule pathNormalize_related [OF _ _ _ rel hd lst split]) auto
  then show ?thesis
    unfolding pathJoin_def gx gy Let_def by simp
qed

text \<open>
  C6. For every build and every list of segments, \<^verbatim>\<open>getInstallPath\<close> and
  \<^verbatim>\<open>getFinalInstallPath\<close> return strings of the same length: both are \<^verbatim>\<open>path.join\<close>
  of the same store root (chosen by \<^verbatim>\<open>shouldBePersisted\<close>), the build id and the
  segments, and differ only in the tree name, \<^verbatim>\<open>_insttmp\<close> or \<^verbatim>\<open>_install\<close>, both of
  8 characters.
\<close>

theorem install_paths_equal_length:
  "length (getInstallPath cfg build segments) = length (getFinalInstallPath cfg build segments)
   \<and> length ''_insttmp'' = 8 \<and> length ''_install'' = 8
   \<and> (let root = (if spec_shouldBePersisted build then storePath cfg else sandboxLocalStorePath cfg)
      in getInstallPath cfg build segments = pathJoin (root # ''_insttmp'' # spec_id build # segments)
         \<and> getFinalInstallPath cfg build segments
             = pathJoin (root # ''_install'' # spec_id build # segments))"
  by (simp add: getInstallPath_def getFinalInstallPath_def genPath_def pathJoin_tree_length)

theorem install_paths_equal_length_witness:
  "getInstallPath \<lparr>storePath = ''/store'', sandboxPath = ''/sandbox''\<rparr>
     (BuildSpec ''foo-1.0.0-abc'' ''foo'' (Some ''1.0.0'') (JObject []) None True False
        ''node_modules/foo'' [] []) [''lib'']
     = ''/store/_insttmp/foo-1.0.0-abc/lib''
   \<and> getFinalInstallPath \<lparr>storePath = ''/store'', sandboxPath = ''/sandbox''\<rparr>
     (BuildSpec ''foo-1.0.0-abc'' ''foo'' (Some ''1.0.0'') (JObject []) None True False
        ''node_modules/foo'' [] []) [''lib'']
     = ''/store/_install/foo-1.0.0-abc/lib''
   \<and> length (getInstallPath \<lparr>storePath = ''/store'', sandboxPath = ''/sandbox''\<rparr>
     (BuildSpec ''foo-1.0.0-abc'' ''foo'' (Some ''1.0.0'') (JObject []) None True False
        ''node_modules/foo'' [] []) [''lib''])
     = length (getFinalInstallPath \<lparr>storePath = ''/store'', sandboxPath = ''/sandbox''\<rparr>
     (BuildSpec ''foo-1.0.0-abc'' ''foo'' (Some ''1.0.0'') (JObject []) None True False
        ''node_modules/foo'' [] []) [''lib''])"
proof -
  let ?cfg = "\<lparr>storePath = ''/store'', sandboxPath = ''/sandbox''\<rparr>"
  let ?b = "BuildSpec ''foo-1.0.0-abc'' ''foo'' (Some ''1.0.0'') (JObject []) None True False
        ''node_modules/foo'' [] []"
  have 1: "pathJoin [''/store'', ''_insttmp'', ''foo-1.0.0-abc'', ''lib'']
      = ''/store/_insttmp/foo-1.0.0-abc/lib''" by code_simp
  have 2: "pathJoin [''/store'', ''_install'', ''foo-1.0.0-abc'', ''lib'']
      = ''/store/_install/foo-1.0.0-abc/lib''" by code_simp
  from install_paths_equal_length [of ?cfg ?b "[''lib'']"] 1 2 show ?thesis
    by (simp add: Let_def)
qed

section \<open>Transitive dependencies in dependency order\<close>

lemma size_transitiveDeps: "x \<in> transitiveDeps n \<Longrightarrow> size x < size n"
proof (induction n arbitrary: x)
  case (Node i deps)
  then obtain d where d: "d \<in> set deps" and x: "x = d \<or> x \<in> transitiveDeps d" by auto
  have "size d < size (Node i deps)" using d by (simp add: less_Suc_eq_le size_list_estimation')
  moreover have "x \<in> transitiveDeps d \<Longrightarrow> size x < size d" using Node.IH d by blast
  ultimately show ?case using x by auto
qed

lemma not_own_dependency: "n \<notin> transitiveDeps n"
  using size_transitiveDeps by blast

lemma nodesOf_Node: "nodesOf (Node i deps) = insert (Node i deps) (\<Union>d \<in> set deps. nodesOf d)"
  by (auto simp: nodesOf_def)

lemma nodesOf_dependency: "d \<in> set deps \<Longrightarrow> nodesOf d \<subseteq> transitiveDeps (Node i deps)"
  by (auto simp: nodesOf_def)

lemma parent_not_in_dependency: "d \<in> set deps \<Longrightarrow> Node i deps \<notin> nodesOf d"
  using nodesOf_dependency not_own_dependency by blast

lemma fold_snoc: "fold (\<lambda>c a. a @ [c]) vs pre = pre @ vs"
  by (induction vs arbitrary: pre) auto

lemma fold_snoc_if: "fold (\<lambda>c a. if P c then a @ [c] else a) xs acc = acc @ filter P xs"
  by (induction xs arbitrary: acc) auto

text \<open>
  Any callback sees the nodes in the order of the post-order list, which only grows at
  its end.
\<close>

lemma traverseFrom_fold_shape:
  assumes elem: "\<And>d sn. d \<in> set ds \<Longrightarrow>
      \<exists>s' vs. (\<forall>pre. traverseFrom (\<lambda>c a. a @ [c]) d (sn, pre) = (s', pre @ vs))
             \<and> (\<forall>acc. traverseFrom f d (sn, acc) = (s', fold f vs acc))"
  shows "\<exists>s' vs. (\<forall>pre. fold (\<lambda>dep st. traverseFrom (\<lambda>c a. a @ [c]) dep st) ds (seen, pre) = (s', pre @ vs))
             \<and> (\<forall>acc. fold (\<lambda>dep st. traverseFrom f dep st) ds (seen, acc) = (s', fold f vs acc))"
  using elem
proof (induction ds arbitrary: seen)
  case Nil
  have "(\<forall>pre. fold (\<lambda>dep st. traverseFrom (\<lambda>c a. a @ [c]) dep st) [] (seen, pre) = (seen, pre @ []))
      \<and> (\<forall>acc. fold (\<lambda>dep st. traverseFrom f dep st) [] (seen, acc) = (seen, fold f [] acc))"
    by simp
  then show ?case by blast
next
  case (Cons d ds)
  have "d \<in> set (d # ds)" by simp
  from Cons.prems [OF this, of seen] obtain s1 v1
    where d1: "\<And>pre. traverseFrom (\<lambda>c a. a @ [c]) d (seen, pre) = (s1, pre @ v1)"
      and d2: "\<And>acc. traverseFrom f d (seen, acc) = (s1, fold f v1 acc)" by blast
  have "\<And>d sn. d \<in> set ds \<Longrightarrow>
      \<exists>s' vs. (\<forall>pre. traverseFrom (\<lambda>c a. a @ [c]) d (sn, pre) = (s', pre @ vs))
             \<and> (\<forall>acc. traverseFrom f d (sn, acc) = (s', fold f vs acc))"
    by (rule Cons.prems) simp
  from Cons.IH [OF this, of s1] obtain s2 v2
    where r1: "\<And>pre. fold (\<lambda>dep st. traverseFrom (\<lambda>c a. a @ [c]) dep st) ds (s1, pre) = (s2, pre @ v2)"
      and r2: "\<And>acc. fold (\<lambda>dep st. traverseFrom f dep st) ds (s1, acc) = (s2, fold f v2 acc)" by blast
  have "(\<forall>pre. fold (\<lambda>dep st. traverseFrom (\<lambda>c a. a @ [c]) dep st) (d # ds) (seen, pre) = (s2, pre @ (v1 @ v2)))
      \<and> (\<forall>acc. fold (\<lambda>dep st. traverseFrom f dep st) (d # ds) (seen, acc) = (s2, fold f (v1 @ v2) acc))"
    by (simp add: d1 d2 r1 r2)
  then show ?case by blast
qed

lemma traverseFrom_shape:
  "\<exists>s' vs. (\<forall>pre. traverseFrom (\<lambda>c a. a @ [c]) n (seen, pre) = (s', pre @ vs))
         \<and> (\<forall>acc. traverseFrom f n (seen, acc) = (s', fold f vs acc))"
proof (induction n arbitrary: seen)
  case (Node i deps)
  show ?case
  proof (cases "i \<in> seen")
    case True
    then have "(\<forall>pre. traverseFrom (\<lambda>c a. a @ [c]) (Node i deps) (seen, pre) = (seen, pre @ []))
         \<and> (\<forall>acc. traverseFrom f (Node i deps) (seen, acc) = (seen, fold f [] acc))"
      by simp
    then show ?thesis by blast
  next
    case False
    from traverseFrom_fold_shape [of deps f "insert i seen", OF Node.IH] obtain s v
      where r1: "\<And>pre. fold (\<lambda>dep st. traverseFrom (\<lambda>c a. a @ [c]) dep st) deps (insert i seen, pre) = (s, pre @ v)"
        and r2: "\<And>acc. fold (\<lambda>dep st. traverseFrom f dep st) deps (insert i seen, acc) = (s, fold f v acc)"
      by blast
    from False have "(\<forall>pre. traverseFrom (\<lambda>c a. a @ [c]) (Node i deps) (seen, pre) = (s, pre @ (v @ [Node i deps])))
         \<and> (\<forall>acc. traverseFrom f (Node i deps) (seen, acc) = (s, fold f (v @ [Node i deps]) acc))"
      by (simp add: r1 r2)
    then show ?thesis by blast
  qed
qed

lemma traverseFrom_generic:
  "traverseFrom f n (seen, acc)
     = (fst (traverseFrom (\<lambda>c a. a @ [c]) n (seen, [])),
        fold f (snd (traverseFrom (\<lambda>c a. a @ [c]) n (seen, []))) acc)"
proof -
  from traverseFrom_shape [of n seen f] obtain s' vs
    where 1: "\<And>pre. traverseFrom (\<lambda>c a. a @ [c]) n (seen, pre) = (s', pre @ vs)"
      and 2: "\<And>acc. traverseFrom f n (seen, acc) = (s', fold f vs acc)" by blast
  show ?thesis by (simp add: 1 2)
qed

lemma leavesFirst_Nil [simp]: "leavesFirst []"
  by (simp add: leavesFirst_def)

lemma leavesFirst_member: "leavesFirst xs \<Longrightarrow> x \<in> set xs \<Longrightarrow> transitiveDeps x \<subseteq> set xs"
proof -
  assume lf: "leavesFirst xs" and "x \<in> set xs"
  then obtain pre post where xs: "xs = pre @ x # post" by (auto simp: in_set_conv_decomp)
  with lf have "transitiveDeps x \<subseteq> set pre" unfolding leavesFirst_def by blast
  then show ?thesis using xs by auto
qed

lemma leavesFirst_snoc:
  assumes "leavesFirst xs" and "transitiveDeps x \<subseteq> set xs"
  shows "leavesFirst (xs @ [x])"
  unfolding leavesFirst_def
proof (intro allI impI)
  fix pre y post
  assume eq: "xs @ [x] = pre @ y # post"
  show "transitiveDeps y \<subseteq> set pre"
  proof (cases post rule: rev_cases)
    case Nil
    with eq have "xs = pre" "y = x" by auto
    with assms(2) show ?thesis by simp
  next
    case (snoc post' z)
    with eq have "xs = pre @ y # post'" by auto
    with assms(1) show ?thesis unfolding leavesFirst_def by blast
  qed
qed

lemma leavesFirst_appendD: "leavesFirst (xs @ ys) \<Longrightarrow> leavesFirst xs"
  unfolding leavesFirst_def by (metis append.assoc append_Cons)

lemma leavesFirst_rev: "leavesFirst xs \<Longrightarrow> dependentsFirst (rev xs)"
  unfolding leavesFirst_def dependentsFirst_def
proof (intro allI impI)
  fix pre x post
  assume lf: "\<forall>pre x post. xs = pre @ x # post \<longrightarrow> transitiveDeps x \<subseteq> set pre"
    and eq: "rev xs = pre @ x # post"
  from eq have "xs = rev post @ x # rev pre" by (simp add: rev_swap)
  with lf have "transitiveDeps x \<subseteq> set (rev post)" by blast
  then show "transitiveDeps x \<subseteq> set post" by simp
qed

lemma postorder_fold_invariant:
  assumes elem: "\<And>d A out. d \<in> set ds \<Longrightarrow> A \<subseteq> U \<Longrightarrow> set out \<subseteq> U \<Longrightarrow> A \<inter> nodesOf d = {}
        \<Longrightarrow> leavesFirst out \<Longrightarrow> distinct out \<Longrightarrow>
        \<exists>new. traverseFrom (\<lambda>c a. a @ [c]) d (node_id ` (A \<union> set out), out)
                 = (node_id ` (A \<union> set (out @ new)), out @ new)
          \<and> set (out @ new) = set out \<union> nodesOf d \<and> distinct (out @ new) \<and> leavesFirst (out @ new)"
    and sub: "\<And>d. d \<in> set ds \<Longrightarrow> nodesOf d \<subseteq> U"
    and A: "A \<subseteq> U" and out: "set out \<subseteq> U"
    and acyc: "\<And>d. d \<in> set ds \<Longrightarrow> A \<inter> nodesOf d = {}"
    and lf: "leavesFirst out" and dist: "distinct out"
  shows "\<exists>new. fold (\<lambda>dep st. traverseFrom (\<lambda>c a. a @ [c]) dep st) ds (node_id ` (A \<union> set out), out)
                 = (node_id ` (A \<union> set (out @ new)), out @ new)
          \<and> set (out @ new) = set out \<union> (\<Union>d \<in> set ds. nodesOf d)
          \<and> distinct (out @ new) \<and> leavesFirst (out @ new)"
  using elem sub out acyc lf dist
proof (induction ds arbitrary: out)
  case Nil
  have "fold (\<lambda>dep st. traverseFrom (\<lambda>c a. a @ [c]) dep st) [] (node_id ` (A \<union> set out), out)
                 = (node_id ` (A \<union> set (out @ [])), out @ [])
          \<and> set (out @ []) = set out \<union> (\<Union>d \<in> set []. nodesOf d)
          \<and> distinct (out @ []) \<and> leavesFirst (out @ [])"
    using Nil by simp
  then show ?case by blast
next
  case (Cons d ds)
  have din: "d \<in> set (d # ds)" by simp
  from Cons.prems(1) [OF din A Cons.prems(3) Cons.prems(4) [OF din] Cons.prems(5) Cons.prems(6)]
  obtain new1 where
    t1: "traverseFrom (\<lambda>c a. a @ [c]) d (node_id ` (A \<union> set out), out)
           = (node_id ` (A \<union> set (out @ new1)), out @ new1)"
    and s1: "set (out @ new1) = set out \<union> nodesOf d"
    and d1: "distinct (out @ new1)" and l1: "leavesFirst (out @ new1)" by blast
  have sub1: "set (out @ new1) \<subseteq> U" using s1 Cons.prems(2) [OF din] Cons.prems(3) by blast
  have "\<exists>new. fold (\<lambda>dep st. traverseFrom (\<lambda>c a. a @ [c]) dep st) ds
                 (node_id ` (A \<union> set (out @ new1)), out @ new1)
                 = (node_id ` (A \<union> set ((out @ new1) @ new)), (out @ new1) @ new)
          \<and> set ((out @ new1) @ new) = set (out @ new1) \<union> (\<Union>d \<in> set ds. nodesOf d)
          \<and> distinct ((out @ new1) @ new) \<and> leavesFirst ((out @ new1) @ new)"
  proof (rule Cons.IH [of "out @ new1"])
    show "\<And>d A out. d \<in> set ds \<Longrightarrow> A \<subseteq> U \<Longrightarrow> set out \<subseteq> U \<Longrightarrow> A \<inter> nodesOf d = {}
        \<Longrightarrow> leavesFirst out \<Longrightarrow> distinct out \<Longrightarrow>
        \<exists>new. traverseFrom (\<lambda>c a. a @ [c]) d (node_id ` (A \<union> set out), out)
                 = (node_id ` (A \<union> set (out @ new)), out @ new)
          \<and> set (out @ new) = set out \<union> nodesOf d \<and> distinct (out @ new) \<and> leavesFirst (out @ new)"
      by (rule Cons.prems(1)) simp_all
    show "\<And>d. d \<in> set ds \<Longrightarrow> nodesOf d \<subseteq> U" by (rule Cons.prems(2)) simp
    show "set (out @ new1) \<subseteq> U" by (rule sub1)
    show "\<And>d. d \<in> set ds \<Longrightarrow> A \<inter> nodesOf d = {}" by (rule Cons.prems(4)) simp
    show "leavesFirst (out @ new1)" by (rule l1)
    show "distinct (out @ new1)" by (rule d1)
  qed
  then obtain new2 where
    t2: "fold (\<lambda>dep st. traverseFrom (\<lambda>c a. a @ [c]) dep st) ds
                 (node_id ` (A \<union> set (out @ new1)), out @ new1)
                 = (node_id ` (A \<union> set ((out @ new1) @ new2)), (out @ new1) @ new2)"
    and s2: "set ((out @ new1) @ new2) = set (out @ new1) \<union> (\<Union>d \<in> set ds. nodesOf d)"
    and d2: "distinct ((out @ new1) @ new2)" and l2: "leavesFirst ((out @ new1) @ new2)" by blast
  have "fold (\<lambda>dep st. traverseFrom (\<lambda>c a. a @ [c]) dep st) (d # ds) (node_id ` (A \<union> set out), out)
                 = (node_id ` (A \<union> set (out @ (new1 @ new2))), out @ (new1 @ new2))"
    using t1 t2 by simp
  moreover have "set (out @ (new1 @ new2)) = set out \<union> (\<Union>d \<in> set (d # ds). nodesOf d)"
    using s1 s2 by auto
  moreover have "distinct (out @ (new1 @ new2))" "leavesFirst (out @ (new1 @ new2))"
    using d2 l2 by simp_all
  ultimately show ?case by blast
qed

lemma postorder_invariant:
  assumes inj: "inj_on node_id U"
  shows "nodesOf n \<subseteq> U \<Longrightarrow> A \<subseteq> U \<Longrightarrow> set out \<subseteq> U \<Longrightarrow> A \<inter> nodesOf n = {}
        \<Longrightarrow> leavesFirst out \<Longrightarrow> distinct out \<Longrightarrow>
        \<exists>new. traverseFrom (\<lambda>c a. a @ [c]) n (node_id ` (A \<union> set out), out)
                 = (node_id ` (A \<union> set (out @ new)), out @ new)
          \<and> set (out @ new) = set out \<union> nodesOf n \<and> distinct (out @ new) \<and> leavesFirst (out @ new)"
proof (induction n arbitrary: A out)
  case (Node i deps)
  let ?n = "Node i deps"
  have nU: "?n \<in> U" using Node.prems(1) by (auto simp: nodesOf_def)
  have subd: "\<And>d. d \<in> set deps \<Longrightarrow> nodesOf d \<subseteq> U"
    using Node.prems(1) nodesOf_dependency [of _ deps i] by (auto simp: nodesOf_def)
  show ?case
  proof (cases "i \<in> node_id ` (A \<union> set out)")
    case True
    then obtain y where y: "y \<in> A \<union> set out" and "node_id y = i" by auto
    then have ids: "node_id y = node_id ?n" by simp
    have "y \<in> U" using y Node.prems(2,3) by blast
    then have "y = ?n" by (rule inj_onD [OF inj ids _ nU])
    moreover have "?n \<notin> A" using Node.prems(4) by (auto simp: nodesOf_def)
    ultimately have mem: "?n \<in> set out" using y by auto
    then have "transitiveDeps ?n \<subseteq> set out" using Node.prems(5) by (rule leavesFirst_member [rotated])
    then have "set (out @ []) = set out \<union> nodesOf ?n" using mem by (auto simp: nodesOf_def)
    moreover have "traverseFrom (\<lambda>c a. a @ [c]) ?n (node_id ` (A \<union> set out), out)
                 = (node_id ` (A \<union> set (out @ [])), out @ [])"
      using True by simp
    ultimately show ?thesis using Node.prems(5,6) by (metis append_Nil2)
  next
    case False
    then have notin: "?n \<notin> A" "?n \<notin> set out" by force+
    let ?A = "insert ?n A"
    have seen: "insert i (node_id ` (A \<union> set out)) = node_id ` (?A \<union> set out)" by simp
    have "\<exists>new. fold (\<lambda>dep st. traverseFrom (\<lambda>c a. a @ [c]) dep st) deps (node_id ` (?A \<union> set out), out)
                 = (node_id ` (?A \<union> set (out @ new)), out @ new)
          \<and> set (out @ new) = set out \<union> (\<Union>d \<in> set deps. nodesOf d)
          \<and> distinct (out @ new) \<and> leavesFirst (out @ new)"
    proof (rule postorder_fold_invariant [where U = U])
      show "\<And>d A out. d \<in> set deps \<Longrightarrow> A \<subseteq> U \<Longrightarrow> set out \<subseteq> U \<Longrightarrow> A \<inter> nodesOf d = {}
          \<Longrightarrow> leavesFirst out \<Longrightarrow> distinct out \<Longrightarrow>
          \<exists>new. traverseFrom (\<lambda>c a. a @ [c]) d (node_id ` (A \<union> set out), out)
                 = (node_id ` (A \<union> set (out @ new)), out @ new)
            \<and> set (out @ new) = set out \<union> nodesOf d \<and> distinct (out @ new) \<and> leavesFirst (out @ new)"
        using Node.IH subd by blast
      show "\<And>d. d \<in> set deps \<Longrightarrow> nodesOf d \<subseteq> U" by (rule subd)
      show "?A \<subseteq> U" using nU Node.prems(2) by simp
      show "set out \<subseteq> U" by (rule Node.prems(3))
      show "\<And>d. d \<in> set deps \<Longrightarrow> ?A \<inter> nodesOf d = {}"
      proof -
        fix d assume d: "d \<in> set deps"
        have "?n \<notin> nodesOf d" using d by (rule parent_not_in_dependency)
        moreover have "A \<inter> nodesOf d = {}"
          using Node.prems(4) nodesOf_dependency [OF d, of i] by (auto simp: nodesOf_def)
        ultimately show "?A \<inter> nodesOf d = {}" by auto
      qed
      show "leavesFirst out" by (rule Node.prems(5))
      show "distinct out" by (rule Node.prems(6))
    qed
    then obtain new1 where
      t: "fold (\<lambda>dep st. traverseFrom (\<lambda>c a. a @ [c]) dep st) deps (node_id ` (?A \<union> set out), out)
                 = (node_id ` (?A \<union> set (out @ new1)), out @ new1)"
      and s: "set (out @ new1) = set out \<union> (\<Union>d \<in> set deps. nodesOf d)"
      and d: "distinct (out @ new1)" and l: "leavesFirst (out @ new1)" by blast
    have deps_in: "transitiveDeps ?n \<subseteq> set (out @ new1)"
      using s by (auto simp: nodesOf_def)
    have nnew: "?n \<notin> set (out @ new1)"
      using s notin(2) parent_not_in_dependency [of _ deps i] by auto
    have "traverseFrom (\<lambda>c a. a @ [c]) ?n (node_id ` (A \<union> set out), out)
        = (node_id ` (?A \<union> set (out @ new1)), (out @ new1) @ [?n])"
      using False t by (simp only: traverseFrom.simps seen if_False split: prod.splits) simp
    moreover have "node_id ` (?A \<union> set (out @ new1)) = node_id ` (A \<union> set (out @ (new1 @ [?n])))"
      by auto
    moreover have "set (out @ (new1 @ [?n])) = set out \<union> nodesOf ?n"
      using s by (auto simp: nodesOf_Node)
    moreover have "distinct (out @ (new1 @ [?n]))" using d nnew by auto
    moreover have "leavesFirst (out @ (new1 @ [?n]))"
      using leavesFirst_snoc [OF l deps_in] by simp
    ultimately show ?thesis by (metis append.assoc)
  qed
qed

lemma leavesFirst_split: "leavesFirst (pre @ x # post) \<Longrightarrow> transitiveDeps x \<subseteq> set pre"
  unfolding leavesFirst_def by (elim allE [of _ pre] allE [of _ x] allE [of _ post]) simp

lemma postorder_root:
  assumes inj: "inj_on node_id (nodesOf root)"
  shows "\<exists>pre s. traverseFrom (\<lambda>c a. a @ [c]) root ({}, []) = (s, pre @ [root])
           \<and> set pre = transitiveDeps root \<and> distinct pre \<and> leavesFirst pre"
proof -
  have "\<exists>new. traverseFrom (\<lambda>c a. a @ [c]) root ({}, []) = (node_id ` set new, new)
          \<and> set new = nodesOf root \<and> distinct new \<and> leavesFirst new"
    using postorder_invariant [OF inj, of root "{}" "[]"] by simp
  then obtain new where t: "traverseFrom (\<lambda>c a. a @ [c]) root ({}, []) = (node_id ` set new, new)"
    and sn: "set new = nodesOf root" and d: "distinct new" and l: "leavesFirst new" by blast
  define s where "s = node_id ` set new"
  have "root \<in> set new" using sn by (simp add: nodesOf_def)
  then obtain pre post where new: "new = pre @ root # post" by (meson split_list)
  have dd: "distinct pre" "root \<notin> set pre" "root \<notin> set post" "set pre \<inter> set post = {}"
    using d unfolding new by simp_all
  have E: "set pre \<union> set post \<union> {root} = insert root (transitiveDeps root)"
    using sn unfolding new nodesOf_def by simp
  have pre: "transitiveDeps root \<subseteq> set pre" using l unfolding new by (rule leavesFirst_split)
  have "set post \<subseteq> transitiveDeps root"
  proof
    fix x assume x: "x \<in> set post"
    then have "x \<in> set pre \<union> set post \<union> {root}" by simp
    then have "x \<in> insert root (transitiveDeps root)" by (simp only: E)
    then have "x = root \<or> x \<in> transitiveDeps root" by simp
    moreover have "x \<noteq> root" using dd(3) x by auto
    ultimately show "x \<in> transitiveDeps root" by simp
  qed
  then have pp: "set post \<subseteq> set pre" using pre by (rule subset_trans)
  have post: "post = []"
  proof (cases post)
    case Nil
    then show ?thesis .
  next
    case (Cons x xs)
    then have x: "x \<in> set post" by simp
    then have "x \<in> set pre" using pp by (rule subsetD [rotated])
    with x have "x \<in> set pre \<inter> set post" by simp
    then have "x \<in> {}" by (simp only: dd(4))
    then show ?thesis by simp
  qed
  have "set pre \<subseteq> transitiveDeps root"
  proof
    fix x assume x: "x \<in> set pre"
    then have "x \<in> set pre \<union> set post \<union> {root}" by simp
    then have "x \<in> insert root (transitiveDeps root)" by (simp only: E)
    then have "x = root \<or> x \<in> transitiveDeps root" by simp
    moreover have "x \<noteq> root" using dd(2) x by auto
    ultimately show "x \<in> transitiveDeps root" by simp
  qed
  then have 1: "set pre = transitiveDeps root" using pre by (rule subset_antisym)
  have 2: "leavesFirst pre" using l unfolding new by (rule leavesFirst_appendD)
  have 3: "traverseFrom (\<lambda>c a. a @ [c]) root ({}, []) = (s, pre @ [root])"
    using t unfolding s_def [symmetric] unfolding new post .
  show ?thesis
    by (intro exI conjI) (rule 3, rule 1, rule dd(1), rule 2)
qed

text \<open>
  C2 (as amended). For every dependency DAG whose nodes have ids of their own,
  \<^verbatim>\<open>collectTransitiveDependencies\<close> returns the transitive dependencies of the root, the
  root excluded and each node once, in an order in which every element comes before all
  of its own transitive dependencies: dependents first, leaves last.
\<close>

theorem collectTransitiveDependencies_dependents_first:
  assumes inj: "inj_on node_id (nodesOf root)"
  shows "set (collectTransitiveDependencies root) = transitiveDeps root
       \<and> distinct (map node_id (collectTransitiveDependencies root))
       \<and> dependentsFirst (collectTransitiveDependencies root)"
proof -
  from postorder_root [OF inj] obtain pre s
    where t: "traverseFrom (\<lambda>c a. a @ [c]) root ({}, []) = (s, pre @ [root])"
      and sp: "set pre = transitiveDeps root" and d: "distinct pre" and l: "leavesFirst pre" by blast
  have notin: "root \<notin> set pre" using sp not_own_dependency by simp
  then have "filter (\<lambda>c. c \<noteq> root) (pre @ [root]) = pre" by (auto simp: filter_id_conv)
  then have c: "collectTransitiveDependencies root = rev pre"
    unfolding collectTransitiveDependencies_def traverseDeepFirst_def
    by (subst traverseFrom_generic) (simp add: t fold_snoc_if)
  have "inj_on node_id (set pre)"
    using inj sp by (auto simp: nodesOf_def intro: inj_on_subset)
  then have "distinct (map node_id (rev pre))" using d by (simp add: distinct_map)
  then show ?thesis using c sp leavesFirst_rev [OF l] by simp
qed

theorem collectTransitiveDependencies_dependents_first_witness:
  "collectTransitiveDependencies
      (Node ''root'' [Node ''a'' [Node ''c'' []], Node ''b'' [Node ''c'' []]])
     = [Node ''b'' [Node ''c'' []], Node ''a'' [Node ''c'' []], Node ''c'' []]
   \<and> dependentsFirst
       [Node ''b'' [Node ''c'' []], Node ''a'' [Node ''c'' []], Node ''c'' []]
   \<and> inj_on node_id (nodesOf (Node ''root'' [Node ''a'' [Node ''c'' []], Node ''b'' [Node ''c'' []]]))"
proof -
  let ?r = "Node ''root'' [Node ''a'' [Node ''c'' []], Node ''b'' [Node ''c'' []]]"
  have inj: "inj_on node_id (nodesOf ?r)" by (auto simp: nodesOf_def inj_on_def)
  have v: "collectTransitiveDependencies ?r
     = [Node ''b'' [Node ''c'' []], Node ''a'' [Node ''c'' []], Node ''c'' []]" by code_simp
  from collectTransitiveDependencies_dependents_first [OF inj] v inj show ?thesis by simp
qed

text \<open>
  C2 as stated fails: with \<open>root \<rightarrow> a \<rightarrow> b\<close> the result is \<open>[a, b]\<close>, where the leaf \<open>b\<close>
  comes last, after its dependent \<open>a\<close>.
\<close>

theorem collectTransitiveDependencies_counterexample:
  "collectTransitiveDependencies (Node ''root'' [Node ''a'' [Node ''b'' []]])
     = [Node ''a'' [Node ''b'' []], Node ''b'' []]
   \<and> Node ''b'' [] \<in> transitiveDeps (Node ''a'' [Node ''b'' []])
   \<and> \<not> leavesFirst (collectTransitiveDependencies (Node ''root'' [Node ''a'' [Node ''b'' []]]))"
proof -
  have v: "collectTransitiveDependencies (Node ''root'' [Node ''a'' [Node ''b'' []]])
     = [Node ''a'' [Node ''b'' []], Node ''b'' []]" by code_simp
  have m: "Node ''b'' [] \<in> transitiveDeps (Node ''a'' [Node ''b'' []])" by simp
  have "\<not> leavesFirst [Node ''a'' [Node ''b'' []], Node ''b'' []]"
  proof
    assume "leavesFirst [Node ''a'' [Node ''b'' []], Node ''b'' []]"
    then have "transitiveDeps (Node ''a'' [Node ''b'' []]) \<subseteq> set []"
      unfolding leavesFirst_def by (metis append_Nil)
    with m show False by simp
  qed
  with v m show ?thesis by simp
qed

section \<open>Rewriting a path inside a file\<close>












section \<open>Change detection and force propagation in the driver\<close>

lemma fsReadFile_writeFile: "fsReadFile (writeFile now fs path content) path = Inr content"
  by (simp add: fsReadFile_def writeFile_def update_conv')

lemma performBuildWithStatusReport_log:
  "performBuildWithStatusReport performBuild task forced st = (r, st')
   \<Longrightarrow> r = (case bo_error (performBuild task (ds_fs st)) of
                Some e \<Rightarrow> Failure e
              | None \<Rightarrow> Success (Some (bo_time (performBuild task (ds_fs st)))) False forced)
     \<and> ds_statusLog st' = ds_statusLog st @ [(task_id task, InProgress), (task_id task, r)]
     \<and> ds_fs st' = bo_fs (performBuild task (ds_fs st))
     \<and> ds_taskInProgress st' = ds_taskInProgress st \<and> ds_now st' = ds_now st"
  by (auto simp: performBuildWithStatusReport_def onTaskStatus_def Let_def split: option.splits)

text \<open>A task that is not persisted and not forced is skipped on a hit.\<close>

lemma performBuildMemoized_hit:
  assumes "\<not> spec_shouldBePersisted (task_spec task)"
    and "ds_taskInProgress st (task_id task) = None"
    and "isSpecExistsInStore cfg (ds_fs st) (task_spec task)"
    and "readSourceChecksum cfg (ds_fs st) (task_spec task)
           = Inr (Some (calculateSourceChecksum sha1 cfg (ds_fs st) (task_spec task)))"
  shows "performBuildMemoized performBuild sha1 cfg task False st
     = Inr (cachedSuccessStatus,
            st\<lparr>ds_statusLog := ds_statusLog st @ [(task_id task, cachedSuccessStatus)],
               ds_taskInProgress := (ds_taskInProgress st)(task_id task \<mapsto> cachedSuccessStatus)\<rparr>)"
  using assms by (simp add: performBuildMemoized_def Let_def onTaskStatus_def)

lemma performBuildMemoized_miss:
  assumes "\<not> spec_shouldBePersisted (task_spec task)"
    and "ds_taskInProgress st (task_id task) = None"
    and "isSpecExistsInStore cfg (ds_fs st) (task_spec task)
           \<longrightarrow> readSourceChecksum cfg (ds_fs st) (task_spec task) = Inr stored"
    and "\<not> (isSpecExistsInStore cfg (ds_fs st) (task_spec task)
           \<and> stored = Some (calculateSourceChecksum sha1 cfg (ds_fs st) (task_spec task)))"
    and "performBuildWithStatusReport performBuild task True st = (r, st1)"
  shows "performBuildMemoized performBuild sha1 cfg task False st
     = Inr (r, (writeStoreChecksum cfg (task_spec task)
                  (calculateSourceChecksum sha1 cfg (ds_fs st) (task_spec task)) st1)
               \<lparr>ds_taskInProgress := (ds_taskInProgress st)(task_id task \<mapsto> r)\<rparr>)"
proof -
  from performBuildWithStatusReport_log [OF assms(5)]
  have tip: "ds_taskInProgress st1 = ds_taskInProgress st" by simp
  show ?thesis
    using assms tip
    by (auto simp: performBuildMemoized_def Let_def writeStoreChecksum_def)
qed

text \<open>
  C4. For a task that is not persisted, not forced and not yet in \<^verbatim>\<open>taskInProgress\<close>,
  \<^verbatim>\<open>performBuildMemoized\<close> reports the cached success and builds nothing (no
  \<^verbatim>\<open>in-progress\<close> status, file system untouched) exactly when the final install path
  exists and the checksum read from \<^verbatim>\<open>_esy/checksum\<close> under the build path equals the
  checksum computed from the sources; otherwise it runs the build and afterwards writes the
  computed checksum to that file. (Reading the checksum file is assumed not to throw.)
\<close>

theorem nonpersisted_skipped_iff_checksum_matches:
  assumes np: "\<not> spec_shouldBePersisted (task_spec task)"
    and fresh: "ds_taskInProgress st (task_id task) = None"
    and rd: "isSpecExistsInStore cfg (ds_fs st) (task_spec task)
           \<longrightarrow> readSourceChecksum cfg (ds_fs st) (task_spec task) = Inr stored"
  shows "\<exists>r st'. performBuildMemoized performBuild sha1 cfg task False st = Inr (r, st')
     \<and> (if isSpecExistsInStore cfg (ds_fs st) (task_spec task)
            \<and> stored = Some (calculateSourceChecksum sha1 cfg (ds_fs st) (task_spec task))
         then r = cachedSuccessStatus \<and> ds_fs st' = ds_fs st
              \<and> ds_statusLog st' = ds_statusLog st @ [(task_id task, cachedSuccessStatus)]
         else r = (case bo_error (performBuild task (ds_fs st)) of
                     Some e \<Rightarrow> Failure e
                   | None \<Rightarrow> Success (Some (bo_time (performBuild task (ds_fs st)))) False True)
              \<and> ds_statusLog st' = ds_statusLog st @ [(task_id task, InProgress), (task_id task, r)]
              \<and> ds_fs st' = writeFile (ds_now st) (bo_fs (performBuild task (ds_fs st)))
                             (getBuildPath cfg (task_spec task) [''_esy'', ''checksum''])
                             (trim (calculateSourceChecksum sha1 cfg (ds_fs st) (task_spec task)))
              \<and> fsReadFile (ds_fs st') (getBuildPath cfg (task_spec task) [''_esy'', ''checksum''])
                  = Inr (trim (calculateSourceChecksum sha1 cfg (ds_fs st) (task_spec task))))"
proof (cases "isSpecExistsInStore cfg (ds_fs st) (task_spec task)
            \<and> stored = Some (calculateSourceChecksum sha1 cfg (ds_fs st) (task_spec task))")
  case True
  with rd have "readSourceChecksum cfg (ds_fs st) (task_spec task)
           = Inr (Some (calculateSourceChecksum sha1 cfg (ds_fs st) (task_spec task)))" by simp
  from performBuildMemoized_hit [OF np fresh _ this, of performBuild] True
  show ?thesis by simp
next
  case False
  obtain r st1 where b: "performBuildWithStatusReport performBuild task True st = (r, st1)" by force
  note log = performBuildWithStatusReport_log [OF b]
  from performBuildMemoized_miss [OF np fresh rd False b] False log
  show ?thesis
    by (simp add: writeStoreChecksum_def fsReadFile_writeFile)
qed

theorem nonpersisted_skipped_iff_checksum_matches_witness:
  "(\<exists>r st'. performBuildMemoized ex_performBuild (\<lambda>s. s) ex_cfg ex_task False (ex_state (ex_fs 100))
              = Inr (r, st')
      \<and> r = cachedSuccessStatus \<and> ds_fs st' = ex_fs 100
      \<and> ds_statusLog st' = [(''app-1.0.0'', cachedSuccessStatus)])
   \<and> (\<exists>r st'. performBuildMemoized ex_performBuild (\<lambda>s. s) ex_cfg ex_task False (ex_state (ex_fs 150))
              = Inr (r, st')
      \<and> r = Success (Some 7) False True
      \<and> ds_statusLog st' = [(''app-1.0.0'', InProgress), (''app-1.0.0'', r)]
      \<and> fsReadFile (ds_fs st') ''/sb/node_modules/.cache/_esy/store/_build/app-1.0.0/_esy/checksum''
           = Inr ''150200'')"
proof -
  have np: "\<not> spec_shouldBePersisted (task_spec ex_task)" by (simp add: ex_task_def ex_spec_def)
  have fresh: "\<And>fs. ds_taskInProgress (ex_state fs) (task_id ex_task) = None"
    by (simp add: ex_state_def)
  have fs: "\<And>fs. ds_fs (ex_state fs) = fs" "\<And>fs. ds_statusLog (ex_state fs) = []"
    "\<And>fs. ds_now (ex_state fs) = 500" "task_id ex_task = ''app-1.0.0''" "task_spec ex_task = ex_spec"
    by (simp_all add: ex_state_def ex_task_def)
  have in1: "isSpecExistsInStore ex_cfg (ex_fs 100) ex_spec" by code_simp
  have rd1: "readSourceChecksum ex_cfg (ex_fs 100) ex_spec = Inr (Some ''100200'')" by code_simp
  have cs1: "calculateSourceChecksum (\<lambda>s. s) ex_cfg (ex_fs 100) ex_spec = ''100200''" by code_simp
  have in2: "isSpecExistsInStore ex_cfg (ex_fs 150) ex_spec" by code_simp
  have rd2: "readSourceChecksum ex_cfg (ex_fs 150) ex_spec = Inr (Some ''100200'')" by code_simp
  have cs2: "calculateSourceChecksum (\<lambda>s. s) ex_cfg (ex_fs 150) ex_spec = ''150200''" by code_simp
  have p: "getBuildPath ex_cfg ex_spec [''_esy'', ''checksum'']
      = ''/sb/node_modules/.cache/_esy/store/_build/app-1.0.0/_esy/checksum''" by code_simp
  have tr: "trim ''150200'' = ''150200''" by code_simp
  have 1: "\<exists>r st'. performBuildMemoized ex_performBuild (\<lambda>s. s) ex_cfg ex_task False (ex_state (ex_fs 100))
              = Inr (r, st')
      \<and> r = cachedSuccessStatus \<and> ds_fs st' = ex_fs 100
      \<and> ds_statusLog st' = [(''app-1.0.0'', cachedSuccessStatus)]"
    using nonpersisted_skipped_iff_checksum_matches
      [OF np fresh, of ex_cfg "ex_fs 100" "Some ''100200''" ex_performBuild "\<lambda>s. s"]
    by (simp add: fs in1 rd1 cs1)
  have 2: "\<exists>r st'. performBuildMemoized ex_performBuild (\<lambda>s. s) ex_cfg ex_task False (ex_state (ex_fs 150))
              = Inr (r, st')
      \<and> r = Success (Some 7) False True
      \<and> ds_statusLog st' = [(''app-1.0.0'', InProgress), (''app-1.0.0'', r)]
      \<and> fsReadFile (ds_fs st') ''/sb/node_modules/.cache/_esy/store/_build/app-1.0.0/_esy/checksum''
           = Inr ''150200''"
    using nonpersisted_skipped_iff_checksum_matches
      [OF np fresh, of ex_cfg "ex_fs 150" "Some ''100200''" ex_performBuild "\<lambda>s. s"]
    by (simp add: fs in2 rd2 cs2 p tr ex_performBuild_def, blast)
  from 1 2 show ?thesis by (rule conjI)
qed


text \<open>
  C3 (as amended). When no direct dependency failed and some direct dependency succeeded
  with \<^verbatim>\<open>forced=true\<close>, a task not yet in \<^verbatim>\<open>taskInProgress\<close> is built in forced mode:
  the build runs whatever the store holds (its \<^verbatim>\<open>in-progress\<close> status is reported), and
  a success reports \<^verbatim>\<open>cached=false\<close> and \<^verbatim>\<open>forced=true\<close>.
\<close>

theorem forced_dependency_forces_dependent:
  assumes "\<not> list_ex isFailure states" and "list_ex isForcedSuccess states"
    and "ds_taskInProgress st (task_id task) = None"
  shows "\<exists>r st'. buildReducer performBuild sha1 cfg states task st = Inr (r, st')
      \<and> r = (case bo_error (performBuild task (ds_fs st)) of
                Some e \<Rightarrow> Failure e
              | None \<Rightarrow> Success (Some (bo_time (performBuild task (ds_fs st)))) False True)
      \<and> ds_statusLog st' = ds_statusLog st @ [(task_id task, InProgress), (task_id task, r)]"
proof -
  obtain r st1 where b: "performBuildWithStatusReport performBuild task True st = (r, st1)" by force
  note log = performBuildWithStatusReport_log [OF b]
  show ?thesis
  proof (cases "spec_shouldBePersisted (task_spec task)")
    case True
    with assms b have "buildReducer performBuild sha1 cfg states task st
        = Inr (r, st1\<lparr>ds_taskInProgress := (ds_taskInProgress st1)(task_id task \<mapsto> r)\<rparr>)"
      by (simp add: buildReducer_def performBuildMemoized_def Let_def)
    with log show ?thesis by simp
  next
    case False
    with assms b have "buildReducer performBuild sha1 cfg states task st
        = Inr (r, (writeStoreChecksum cfg (task_spec task)
                     (calculateSourceChecksum sha1 cfg (ds_fs st1) (task_spec task)) st1)
                  \<lparr>ds_taskInProgress :=
                     (ds_taskInProgress (writeStoreChecksum cfg (task_spec task)
                        (calculateSourceChecksum sha1 cfg (ds_fs st1) (task_spec task)) st1))
                       (task_id task \<mapsto> r)\<rparr>)"
      by (simp add: buildReducer_def performBuildMemoized_def Let_def)
    with log show ?thesis by (simp add: writeStoreChecksum_def)
  qed
qed

theorem forced_dependency_forces_dependent_witness:
  "\<exists>r st'. buildReducer ex_performBuild (\<lambda>s. s) ex_cfg [Success (Some 10) False True] ex_task
               (ex_state (ex_fs 100)) = Inr (r, st')
      \<and> r = Success (Some 7) False True
      \<and> ds_statusLog st' = [(''app-1.0.0'', InProgress), (''app-1.0.0'', r)]"
proof -
  have 1: "\<not> list_ex isFailure [Success (Some 10) False True]" by (simp add: isFailure_def)
  have 2: "list_ex isForcedSuccess [Success (Some 10) False True]" by (simp add: isForcedSuccess_def)
  have 3: "ds_taskInProgress (ex_state (ex_fs 100)) (task_id ex_task) = None"
    by (simp add: ex_state_def)
  from forced_dependency_forces_dependent [OF 1 2 3, of ex_performBuild "\<lambda>s. s" ex_cfg]
  show ?thesis by (simp add: ex_performBuild_def ex_state_def ex_task_def)
qed

text \<open>
  C3 as stated fails: a dependency that was rebuilt without being forced
  (\<^verbatim>\<open>cached=false\<close>, \<^verbatim>\<open>forced=false\<close>) does not force its dependent, which here
  reports the cached success and is not built.
\<close>

theorem forced_dependency_counterexample:
  "\<not> list_ex isFailure [Success (Some 10) False False]
   \<and> state_cached (Success (Some 10) False False) = False
   \<and> map_sum id fst
        (buildReducer ex_performBuild (\<lambda>s. s) ex_cfg [Success (Some 10) False False] ex_task
           (ex_state (ex_fs 100)))
       = Inr (Success None True False)
   \<and> map_sum id (\<lambda>p. ds_statusLog (snd p))
        (buildReducer ex_performBuild (\<lambda>s. s) ex_cfg [Success (Some 10) False False] ex_task
           (ex_state (ex_fs 100)))
       = Inr [(''app-1.0.0'', Success None True False)]"
proof -
  have np: "\<not> spec_shouldBePersisted (task_spec ex_task)" by (simp add: ex_task_def ex_spec_def)
  have fresh: "ds_taskInProgress (ex_state (ex_fs 100)) (task_id ex_task) = None"
    by (simp add: ex_state_def)
  have fs: "ds_fs (ex_state (ex_fs 100)) = ex_fs 100" "task_spec ex_task = ex_spec"
    by (simp_all add: ex_state_def ex_task_def)
  have in1: "isSpecExistsInStore ex_cfg (ex_fs 100) ex_spec" by code_simp
  have rd1: "readSourceChecksum ex_cfg (ex_fs 100) ex_spec = Inr (Some ''100200'')" by code_simp
  have cs1: "calculateSourceChecksum (\<lambda>s. s) ex_cfg (ex_fs 100) ex_spec = ''100200''" by code_simp
  have hit: "performBuildMemoized ex_performBuild (\<lambda>s. s) ex_cfg ex_task False (ex_state (ex_fs 100))
     = Inr (cachedSuccessStatus,
            (ex_state (ex_fs 100))\<lparr>ds_statusLog := ds_statusLog (ex_state (ex_fs 100))
                                       @ [(task_id ex_task, cachedSuccessStatus)],
               ds_taskInProgress := (ds_taskInProgress (ex_state (ex_fs 100)))
                                       (task_id ex_task \<mapsto> cachedSuccessStatus)\<rparr>)"
    by (rule performBuildMemoized_hit [OF np fresh]) (simp_all add: fs in1 rd1 cs1)
  show ?thesis
    by (simp add: buildReducer_def isFailure_def isForcedSuccess_def hit cachedSuccessStatus_def)
       (simp add: ex_state_def ex_task_def)
qed



section \<open>Build identifiers do not depend on key order\<close>

lemma hash_JArray_cong:
  "map (hash sha1) xs = map (hash sha1) ys \<Longrightarrow> hash sha1 (JArray xs) = hash sha1 (JArray ys)"
  by simp

lemma getProp_related:
  assumes "list_all2 (\<lambda>kv kv'. fst kv = fst kv' \<and> R (snd kv) (snd kv')) kvs kvs'"
    and "map_of kvs k = Some v"
  shows "\<exists>v'. map_of kvs' k = Some v' \<and> R v v'"
  using assms
proof (induction kvs kvs' rule: list_all2_induct)
  case Nil
  then show ?case by simp
next
  case (Cons x xs y ys)
  then show ?case by (cases x, cases y) (auto split: if_splits)
qed

lemma related_keys:
  "list_all2 (\<lambda>kv kv'. fst kv = fst kv' \<and> R (snd kv) (snd kv')) kvs kvs' \<Longrightarrow> map fst kvs = map fst kvs'"
  by (induction kvs kvs' rule: list_all2_induct) auto

lemma distinctKeys_value:
  "distinctKeys (JObject kvs) \<Longrightarrow> map_of kvs k = Some v \<Longrightarrow> distinctKeys v"
  by (auto simp: list_all_iff dest!: map_of_SomeD)

lemma map_of_permutation:
  assumes "distinct (map fst xs)" and "mset xs = mset ys"
  shows "map_of xs = map_of ys"
proof -
  have "mset (map fst xs) = mset (map fst ys)" using assms(2) by (metis mset_map)
  then have "distinct (map fst ys)" using assms(1) by (metis mset_eq_imp_distinct_iff)
  moreover have "set xs = set ys" using assms(2) by (rule mset_eq_setD)
  ultimately show ?thesis using assms(1) by (simp add: map_of_inject_set)
qed

lemma sort_keys_permutation: "mset xs = mset ys \<Longrightarrow> sort (map fst xs) = sort (map fst ys)"
proof -
  assume "mset xs = mset ys"
  then have "mset (map fst xs) = mset (map fst ys)" by (metis mset_map)
  then show ?thesis by (intro properties_for_sort) simp_all
qed

lemma hash_object_entries:
  assumes rel: "list_all2 (\<lambda>kv kv'. fst kv = fst kv'
                   \<and> (sameUpToKeyOrder (snd kv) (snd kv')
                      \<and> (distinctKeys (snd kv) \<longrightarrow> hash sha1 (snd kv) = hash sha1 (snd kv')))) kvs kvs'"
    and perm: "mset kvs' = mset kvs''"
    and dk: "distinctKeys (JObject kvs)"
  shows "hash sha1 (JObject kvs) = hash sha1 (JObject kvs'')"
proof -
  have keys: "map fst kvs = map fst kvs'" using rel by (rule related_keys)
  then have d': "distinct (map fst kvs')" using dk by simp
  have m: "map_of kvs' = map_of kvs''" using d' perm by (rule map_of_permutation)
  have s: "sort (map fst kvs) = sort (map fst kvs'')"
    using keys sort_keys_permutation [OF perm] by simp
  have each: "hash sha1 (getProp kvs k) = hash sha1 (getProp kvs'' k)" for k
  proof (cases "map_of kvs k")
    case None
    then have "k \<notin> set (map fst kvs)" by (simp add: map_of_eq_None_iff)
    then have "map_of kvs' k = None" using keys by (simp add: map_of_eq_None_iff)
    with None m show ?thesis by (simp add: getProp_def)
  next
    case (Some v)
    from getProp_related [OF rel Some] obtain v' where
      v': "map_of kvs' k = Some v'" "distinctKeys v \<longrightarrow> hash sha1 v = hash sha1 v'" by blast
    moreover have "distinctKeys v" using dk Some by (rule distinctKeys_value)
    ultimately show ?thesis using Some m by (simp add: getProp_def)
  qed
  have "map (hash sha1) (map (\<lambda>k. JArray [JString k, getProp kvs k]) (sort (map fst kvs)))
      = map (hash sha1) (map (\<lambda>k. JArray [JString k, getProp kvs'' k]) (sort (map fst kvs'')))"
    unfolding s by (simp add: each)
  then show ?thesis by (simp add: Let_def)
qed

lemma hash_sameUpToKeyOrder:
  "sameUpToKeyOrder a b \<Longrightarrow> distinctKeys a \<Longrightarrow> hash sha1 a = hash sha1 b"
proof (induction rule: sameUpToKeyOrder.induct)
  case (same v)
  then show ?case by simp
next
  case (array xs ys)
  have "map (hash sha1) xs = map (hash sha1) ys"
    using array by (induction xs ys rule: list_all2_induct) auto
  then show ?case by (rule hash_JArray_cong)
next
  case (object kvs kvs' kvs'')
  then show ?case by (intro hash_object_entries)
next
  case (map kvs kvs' kvs'')
  then show ?case by simp
qed

text \<open>
  C1. \<^verbatim>\<open>calculateBuildId\<close> gives the same id for two inputs that differ only in the key
  order of objects (in the manifest's \<^verbatim>\<open>esy\<close> section, at any depth, and in the
  environment), and it reads nothing but the environment, the manifest's name, version and
  \<^verbatim>\<open>esy\<close> section, the source tag and the ids of the direct dependencies in their order:
  changing anything else (other manifest fields, the other fields of the dependencies, any
  build that is not a direct dependency) leaves the id as it was.
\<close>

theorem calculateBuildId_key_order:
  assumes esy: "sameUpToKeyOrder (pkg_esy pj) (pkg_esy pj')" "distinctKeys (pkg_esy pj)"
    and env: "sameUpToKeyOrder env env'" "distinctKeys env"
    and name: "pkg_name pj' = pkg_name pj" and version: "pkg_version pj' = pkg_version pj"
    and deps: "map (\<lambda>(k, dep). spec_id dep) deps' = map (\<lambda>(k, dep). spec_id dep) deps"
  shows "calculateBuildId sha1 esyTest env pj source deps
       = calculateBuildId sha1 esyTest env' pj' source deps'"
proof -
  have split: "(\<lambda>(k, dep). JString (spec_id dep)) = JString \<circ> (\<lambda>(k :: string, dep). spec_id dep)"
    by (rule ext) (simp add: case_prod_beta)
  have arr: "map (\<lambda>(k, dep). JString (spec_id dep)) deps' = map (\<lambda>(k, dep). JString (spec_id dep)) deps"
    unfolding split map_map [symmetric] deps ..
  have inner: "sameUpToKeyOrder
      (JObject [(''name'', JString (pkg_name pj)), (''version'', optString (pkg_version pj)),
                (''esy'', pkg_esy pj)])
      (JObject [(''name'', JString (pkg_name pj')), (''version'', optString (pkg_version pj')),
                (''esy'', pkg_esy pj')])"
    by (rule sameUpToKeyOrder.object
          [where kvs' = "[(''name'', JString (pkg_name pj')), (''version'', optString (pkg_version pj')),
                (''esy'', pkg_esy pj')]"])
       (simp_all add: name version esy(1) sameUpToKeyOrder.same)
  have rel: "sameUpToKeyOrder (buildIdInput env pj source deps) (buildIdInput env' pj' source deps')"
    unfolding buildIdInput_def arr
    by (rule sameUpToKeyOrder.object
          [where kvs' = "[(''env'', env'), (''source'', JString source),
             (''packageJson'', JObject [(''name'', JString (pkg_name pj')),
                (''version'', optString (pkg_version pj')), (''esy'', pkg_esy pj')]),
             (''dependencies'', JArray (map (\<lambda>(k, dep). JString (spec_id dep)) deps))]"])
       (simp_all add: env(1) inner sameUpToKeyOrder.same)
  have dk: "distinctKeys (buildIdInput env pj source deps)"
    using esy(2) env(2)
    by (simp add: buildIdInput_def list_all_iff case_prod_beta optString_def split: option.splits)
  have "hash sha1 (buildIdInput env pj source deps) = hash sha1 (buildIdInput env' pj' source deps')"
    using rel dk by (rule hash_sameUpToKeyOrder)
  then show ?thesis by (simp add: calculateBuildId_def name version)
qed

theorem calculateBuildId_key_order_witness:
  "calculateBuildId (\<lambda>s. natToString (length s)) False (JMap [(''PATH'', JString ''/bin'')])
       (ex_manifest ex_esy None) ''local:/sb'' [(''lib-2.0.0-abc'', ex_lib [])]
   = calculateBuildId (\<lambda>s. natToString (length s)) False (JMap [(''PATH'', JString ''/bin'')])
       (ex_manifest ex_esy_permuted (Some [(''peer'', ''1'')])) ''local:/sb''
       [(''lib-2.0.0-abc'', ex_lib [''a diagnostic''])]"
proof -
  have a: "sameUpToKeyOrder (JObject [(''val'', JString ''1''), (''scope'', JString ''global'')])
      (JObject [(''scope'', JString ''global''), (''val'', JString ''1'')])"
    by (rule sameUpToKeyOrder.object
          [where kvs' = "[(''val'', JString ''1''), (''scope'', JString ''global'')]"])
       (simp_all add: sameUpToKeyOrder.same)
  have e: "sameUpToKeyOrder
      (JObject [(''app__a'', JObject [(''val'', JString ''1''), (''scope'', JString ''global'')]),
                (''app__b'', JObject [(''val'', JString ''2'')])])
      (JObject [(''app__b'', JObject [(''val'', JString ''2'')]),
                (''app__a'', JObject [(''scope'', JString ''global''), (''val'', JString ''1'')])])"
    by (rule sameUpToKeyOrder.object
          [where kvs' = "[(''app__a'', JObject [(''scope'', JString ''global''), (''val'', JString ''1'')]),
                          (''app__b'', JObject [(''val'', JString ''2'')])]"])
       (simp_all add: a sameUpToKeyOrder.same)
  have esy: "sameUpToKeyOrder (pkg_esy (ex_manifest ex_esy None))
      (pkg_esy (ex_manifest ex_esy_permuted (Some [(''peer'', ''1'')])))"
    unfolding ex_manifest_def ex_esy_def ex_esy_permuted_def
    by (simp, rule sameUpToKeyOrder.object
          [where kvs' = "[(''build'', JString ''make''),
              (''exportedEnv'', JObject
                 [(''app__b'', JObject [(''val'', JString ''2'')]),
                  (''app__a'', JObject [(''scope'', JString ''global''), (''val'', JString ''1'')])]),
              (''buildsInSource'', JBool False)]"])
       (simp_all add: e sameUpToKeyOrder.same)
  have dk: "distinctKeys (pkg_esy (ex_manifest ex_esy None))"
    by (simp add: ex_manifest_def ex_esy_def)
  have env: "sameUpToKeyOrder (JMap [(''PATH'', JString ''/bin'')]) (JMap [(''PATH'', JString ''/bin'')])"
    by (rule sameUpToKeyOrder.same)
  have dm: "distinctKeys (JMap [(''PATH'', JString ''/bin'')])" by simp
  have n: "pkg_name (ex_manifest ex_esy_permuted (Some [(''peer'', ''1'')])) = pkg_name (ex_manifest ex_esy None)"
    "pkg_version (ex_manifest ex_esy_permuted (Some [(''peer'', ''1'')])) = pkg_version (ex_manifest ex_esy None)"
    by (simp_all add: ex_manifest_def)
  have d: "map (\<lambda>(k, dep). spec_id dep) [(''lib-2.0.0-abc'', ex_lib [''a diagnostic''])]
      = map (\<lambda>(k, dep). spec_id dep) [(''lib-2.0.0-abc'', ex_lib [])]"
    by (simp add: ex_lib_def)
  show ?thesis
    by (rule calculateBuildId_key_order [OF esy dk env dm n d])
qed

end
